theory Spec2Isabelle
  imports Complex_Main "HOL-Library.Word" "HOL-Library.Monad_Syntax"
begin

unbundle bit_operations_syntax

section \<open>Data model\<close>

text \<open>
  The source (\<^verbatim>\<open>src/sm3.js\<close>) works on JavaScript arrays of numbers. A byte array is
  modelled as a list of 8-bit words. Every 32-bit quantity of the source (the chaining
  state, the schedule \<^verbatim>\<open>W\<close>, the registers \<^verbatim>\<open>A..H\<close>) is a JavaScript number that the
  code only combines with the bit operators, which work modulo \<open>2 ^ 32\<close>, or with \<^verbatim>\<open>+\<close>
  followed by \<^verbatim>\<open>& 0xffffffff\<close>; such a quantity is a \<open>32 word\<close>, whether JavaScript holds
  it as a signed or an unsigned number. The counters \<^verbatim>\<open>nblocks\<close> and \<^verbatim>\<open>num\<close> are
  JavaScript numbers that are never reduced, so they are natural numbers.
\<close>

type_synonym byte = "8 word"
type_synonym u32 = "32 word"

text \<open>
  Reading a JavaScript array past its end gives \<^verbatim>\<open>undefined\<close>; every consumer of a byte
  in this file (\<^verbatim>\<open><<\<close>, \<^verbatim>\<open>|\<close>, \<^verbatim>\<open>^\<close>) coerces it to 0. Writing past the end extends the
  array, the skipped slots being holes, which read as \<^verbatim>\<open>undefined\<close> again.
\<close>

definition js_get :: "byte list \<Rightarrow> nat \<Rightarrow> byte" where
  "js_get a i = (if i < length a then a ! i else 0)"

definition js_set :: "byte list \<Rightarrow> nat \<Rightarrow> byte \<Rightarrow> byte list" where
  "js_set a i v = (if i < length a then a[i := v] else a @ replicate (i - length a) 0 @ [v])"

text \<open>
  \<^verbatim>\<open>while (len--) { dst[dst_offset++] = src[src_offset++]; }\<close>: the loop ends when \<^verbatim>\<open>len\<close>
  reaches 0, so it never ends on a negative \<^verbatim>\<open>len\<close>; not returning is \<open>None\<close>.
\<close>

function sm3_memcpy :: "byte list \<Rightarrow> nat \<Rightarrow> byte list \<Rightarrow> nat \<Rightarrow> int \<Rightarrow> byte list option" where
  "sm3_memcpy dst dst_offset src src_offset len =
     (if len < 0 then None
      else if len = 0 then Some dst
      else sm3_memcpy (js_set dst dst_offset (js_get src src_offset))
             (dst_offset + 1) src (src_offset + 1) (len - 1))"
  by pat_completeness auto
termination
  by (relation "measure (\<lambda>(dst, dst_offset, src, src_offset, len). nat len)") auto

declare sm3_memcpy.simps [simp del]

function sm3_memset :: "byte list \<Rightarrow> nat \<Rightarrow> byte \<Rightarrow> int \<Rightarrow> byte list option" where
  "sm3_memset dst offset val len =
     (if len < 0 then None
      else if len = 0 then Some dst
      else sm3_memset (js_set dst offset val) (offset + 1) val (len - 1))"
  by pat_completeness auto
termination
  by (relation "measure (\<lambda>(dst, offset, val, len). nat len)") auto

declare sm3_memset.simps [simp del]

definition SM3_GETU32 :: "byte list \<Rightarrow> nat \<Rightarrow> u32" where
  "SM3_GETU32 data offset =
     push_bit 24 (ucast (js_get data offset))
     OR push_bit 16 (ucast (js_get data (offset + 1)))
     OR push_bit 8 (ucast (js_get data (offset + 2)))
     OR ucast (js_get data (offset + 3))"

definition SM3_PUTU32 :: "byte list \<Rightarrow> nat \<Rightarrow> u32 \<Rightarrow> byte list" where
  "SM3_PUTU32 data offset val =
     (let data = js_set data (offset + 3) (ucast val);
          val = drop_bit 8 val;
          data = js_set data (offset + 2) (ucast val);
          val = drop_bit 8 val;
          data = js_set data (offset + 1) (ucast val);
          val = drop_bit 8 val
      in js_set data offset (ucast val))"

definition SM3_DIGEST_LENGTH :: nat where
  "SM3_DIGEST_LENGTH = 32"

definition SM3_BLOCK_SIZE :: nat where
  "SM3_BLOCK_SIZE = 64"

record sm3_ctx =
  state :: "u32 list"
  block :: "byte list"
  nblocks :: nat
  num :: nat

definition sm3_init :: "sm3_ctx \<Rightarrow> sm3_ctx" where
  "sm3_init ctx =
     ctx\<lparr> block := fold (\<lambda>i b. js_set b i 0) [0..<SM3_BLOCK_SIZE] (block ctx),
          nblocks := 0,
          num := 0,
          state := (state ctx)[0 := 0x7380166F, 1 := 0x4914B2B9, 2 := 0x172442D7,
                               3 := 0xDA8A0600, 4 := 0xA96F30BC, 5 := 0x163138AA,
                               6 := 0xE38DEE4D, 7 := 0xB0FB0E4E] \<rparr>"

text \<open>\<^verbatim>\<open>new Array(n)\<close> has \<open>n\<close> holes; \<open>sm3_init\<close> overwrites all of them.\<close>

definition sm3_ctx_new :: sm3_ctx where
  "sm3_ctx_new =
     sm3_init \<lparr> state = replicate 8 0, block = replicate 64 0, nblocks = 0, num = 0 \<rparr>"

section \<open>Compression\<close>

text \<open>The shift counts the source passes are between 7 and 23.\<close>

definition SM3_ROL32 :: "u32 \<Rightarrow> nat \<Rightarrow> u32" where
  "SM3_ROL32 x n = push_bit n x OR drop_bit (32 - n) x"

definition SM3_P0 :: "u32 \<Rightarrow> u32" where
  "SM3_P0 x = x XOR SM3_ROL32 x 9 XOR SM3_ROL32 x 17"

definition SM3_P1 :: "u32 \<Rightarrow> u32" where
  "SM3_P1 x = x XOR SM3_ROL32 x 15 XOR SM3_ROL32 x 23"

definition SM3_FF00 :: "u32 \<Rightarrow> u32 \<Rightarrow> u32 \<Rightarrow> u32" where
  "SM3_FF00 x y z = x XOR y XOR z"

definition SM3_FF16 :: "u32 \<Rightarrow> u32 \<Rightarrow> u32 \<Rightarrow> u32" where
  "SM3_FF16 x y z = (x AND y) OR (x AND z) OR (y AND z)"

definition SM3_GG00 :: "u32 \<Rightarrow> u32 \<Rightarrow> u32 \<Rightarrow> u32" where
  "SM3_GG00 x y z = x XOR y XOR z"

definition SM3_GG16 :: "u32 \<Rightarrow> u32 \<Rightarrow> u32 \<Rightarrow> u32" where
  "SM3_GG16 x y z = ((y XOR z) AND x) XOR z"

definition K :: "u32 list" where
  "K = [
    0x79cc4519, 0xf3988a32, 0xe7311465, 0xce6228cb,
    0x9cc45197, 0x3988a32f, 0x7311465e, 0xe6228cbc,
    0xcc451979, 0x988a32f3, 0x311465e7, 0x6228cbce,
    0xc451979c, 0x88a32f39, 0x11465e73, 0x228cbce6,
    0x9d8a7a87, 0x3b14f50f, 0x7629ea1e, 0xec53d43c,
    0xd8a7a879, 0xb14f50f3, 0x629ea1e7, 0xc53d43ce,
    0x8a7a879d, 0x14f50f3b, 0x29ea1e76, 0x53d43cec,
    0xa7a879d8, 0x4f50f3b1, 0x9ea1e762, 0x3d43cec5,
    0x7a879d8a, 0xf50f3b14, 0xea1e7629, 0xd43cec53,
    0xa879d8a7, 0x50f3b14f, 0xa1e7629e, 0x43cec53d,
    0x879d8a7a, 0x0f3b14f5, 0x1e7629ea, 0x3cec53d4,
    0x79d8a7a8, 0xf3b14f50, 0xe7629ea1, 0xcec53d43,
    0x9d8a7a87, 0x3b14f50f, 0x7629ea1e, 0xec53d43c,
    0xd8a7a879, 0xb14f50f3, 0x629ea1e7, 0xc53d43ce,
    0x8a7a879d, 0x14f50f3b, 0x29ea1e76, 0x53d43cec,
    0xa7a879d8, 0x4f50f3b1, 0x9ea1e762, 0x3d43cec5]"

text \<open>The registers \<^verbatim>\<open>A, B, C, D, E, F, G, H\<close> of one block.\<close>

type_synonym regs = "u32 \<times> u32 \<times> u32 \<times> u32 \<times> u32 \<times> u32 \<times> u32 \<times> u32"

text \<open>\<^verbatim>\<open>for (j = 0; j < 16; j++) W[j] = SM3_GETU32(data, offset + j*4);\<close>\<close>

definition load_W :: "u32 list \<Rightarrow> byte list \<Rightarrow> nat \<Rightarrow> u32 list" where
  "load_W W data offset = fold (\<lambda>j W. W[j := SM3_GETU32 data (offset + j * 4)]) [0..<16] W"

text \<open>The loop \<^verbatim>\<open>for (; j < 68; j++)\<close> that extends the schedule in place.\<close>

definition expand_W :: "u32 list \<Rightarrow> u32 list" where
  "expand_W W =
     fold (\<lambda>j W. W[j := SM3_P1 (W ! (j - 16) XOR W ! (j - 9) XOR SM3_ROL32 (W ! (j - 3)) 15)
                        XOR SM3_ROL32 (W ! (j - 13)) 7 XOR W ! (j - 6)])
          [16..<68] W"

text \<open>The body of the first round loop (\<open>j < 16\<close>) and of the second (\<open>16 \<le> j < 64\<close>).\<close>

fun round00 :: "u32 list \<Rightarrow> nat \<Rightarrow> regs \<Rightarrow> regs" where
  "round00 W j (A, B, C, D, E, F, G, H) =
     (let SS1 = SM3_ROL32 A 12 + E + K ! j;
          SS1 = SM3_ROL32 SS1 7;
          SS2 = SS1 XOR SM3_ROL32 A 12;
          TT1 = W ! j XOR W ! (j + 4);
          TT1 = SM3_FF00 A B C + D + SS2 + TT1;
          TT2 = SM3_GG00 E F G + H + SS1 + W ! j
      in (TT1, A, SM3_ROL32 B 9, C, SM3_P0 TT2, E, SM3_ROL32 F 19, G))"

fun round16 :: "u32 list \<Rightarrow> nat \<Rightarrow> regs \<Rightarrow> regs" where
  "round16 W j (A, B, C, D, E, F, G, H) =
     (let SS1 = SM3_ROL32 A 12 + E + K ! j;
          SS1 = SM3_ROL32 SS1 7;
          SS2 = SS1 XOR SM3_ROL32 A 12;
          TT1 = W ! j XOR W ! (j + 4);
          TT1 = SM3_FF16 A B C + D + SS2 + TT1;
          TT2 = SM3_GG16 E F G + H + SS1 + W ! j
      in (TT1, A, SM3_ROL32 B 9, C, SM3_P0 TT2, E, SM3_ROL32 F 19, G))"

text \<open>One pass of the body of \<^verbatim>\<open>while (blocks--)\<close>.\<close>

definition compress_block :: "u32 list \<Rightarrow> byte list \<Rightarrow> nat \<Rightarrow> u32 list" where
  "compress_block st data offset =
     (let W = expand_W (load_W (replicate 68 0) data offset);
          r = (st ! 0, st ! 1, st ! 2, st ! 3, st ! 4, st ! 5, st ! 6, st ! 7);
          r = fold (round00 W) [0..<16] r;
          r = fold (round16 W) [16..<64] r
      in case r of (A, B, C, D, E, F, G, H) \<Rightarrow>
           st[0 := st ! 0 XOR A, 1 := st ! 1 XOR B, 2 := st ! 2 XOR C, 3 := st ! 3 XOR D,
              4 := st ! 4 XOR E, 5 := st ! 5 XOR F, 6 := st ! 6 XOR G, 7 := st ! 7 XOR H])"

text \<open>
  \<^verbatim>\<open>while (blocks--) { ... }\<close>: the body reads the block at \<^verbatim>\<open>offset\<close>, and the source
  never changes \<^verbatim>\<open>offset\<close> inside the loop, so every pass reads the same 64 bytes.
  The callers pass the literal 1 or a positive \<^verbatim>\<open>Math.floor\<close>, a natural number.
\<close>

fun sm3_compress_blocks :: "u32 list \<Rightarrow> byte list \<Rightarrow> nat \<Rightarrow> nat \<Rightarrow> u32 list" where
  "sm3_compress_blocks st data offset 0 = st"
| "sm3_compress_blocks st data offset (Suc blocks) =
     sm3_compress_blocks (compress_block st data offset) data offset blocks"

definition sm3_compress :: "u32 list \<Rightarrow> byte list \<Rightarrow> u32 list" where
  "sm3_compress st blk = sm3_compress_blocks st blk 0 1"

section \<open>Streaming digest\<close>

text \<open>The part of \<^verbatim>\<open>sm3_update\<close> after the \<^verbatim>\<open>if (ctx.num)\<close> statement.\<close>

definition sm3_update_rest :: "sm3_ctx \<Rightarrow> byte list \<Rightarrow> nat \<Rightarrow> nat \<Rightarrow> sm3_ctx option" where
  "sm3_update_rest ctx data data_offset data_len =
     (let blocks = data_len div SM3_BLOCK_SIZE;
          (ctx, data_offset, data_len) =
            (if blocks > 0
             then (ctx\<lparr> state := sm3_compress_blocks (state ctx) data data_offset blocks,
                        nblocks := nblocks ctx + blocks \<rparr>,
                   data_offset + SM3_BLOCK_SIZE * blocks,
                   data_len - SM3_BLOCK_SIZE * blocks)
             else (ctx, data_offset, data_len));
          ctx = ctx\<lparr> num := data_len \<rparr>
      in if data_len \<noteq> 0
         then do { b \<leftarrow> sm3_memcpy (block ctx) 0 data data_offset (int data_len);
                   Some (ctx\<lparr> block := b \<rparr>) }
         else Some ctx)"

definition sm3_update :: "sm3_ctx \<Rightarrow> byte list \<Rightarrow> sm3_ctx option" where
  "sm3_update ctx data =
     (let data_len = length data in
      if num ctx \<noteq> 0 then
        (let left = int SM3_BLOCK_SIZE - int (num ctx) in
         if int data_len < left
         then do { b \<leftarrow> sm3_memcpy (block ctx) (num ctx) data 0 (int data_len);
                   Some (ctx\<lparr> block := b, num := num ctx + data_len \<rparr>) }
         else do { b \<leftarrow> sm3_memcpy (block ctx) (num ctx) data 0 left;
                   sm3_update_rest
                     (ctx\<lparr> block := b,
                           state := sm3_compress_blocks (state ctx) b 0 1,
                           nblocks := nblocks ctx + 1 \<rparr>)
                     data (nat left) (data_len - nat left) })
      else sm3_update_rest ctx data 0 data_len)"

text \<open>
  \<^verbatim>\<open>ctx.nblocks >>> 23\<close> takes \<^verbatim>\<open>nblocks\<close> modulo \<open>2 ^ 32\<close> first, as every JavaScript shift
  does; the sum for \<^verbatim>\<open>lo\<close> is masked to 32 bits.
\<close>

definition sm3_final :: "sm3_ctx \<Rightarrow> byte list \<Rightarrow> (sm3_ctx \<times> byte list) option" where
  "sm3_final ctx digest =
     do { let ctx = ctx\<lparr> block := js_set (block ctx) (num ctx) 0x80 \<rparr>;
          ctx \<leftarrow> (if num ctx + 9 \<le> SM3_BLOCK_SIZE
                  then do { b \<leftarrow> sm3_memset (block ctx) (num ctx + 1) 0
                                   (int SM3_BLOCK_SIZE - int (num ctx) - 9);
                            Some (ctx\<lparr> block := b \<rparr>) }
                  else do { b \<leftarrow> sm3_memset (block ctx) (num ctx + 1) 0
                                   (int SM3_BLOCK_SIZE - int (num ctx) - 1);
                            let st = sm3_compress (state ctx) b;
                            b \<leftarrow> sm3_memset b 0 0 (int SM3_BLOCK_SIZE - 8);
                            Some (ctx\<lparr> block := b, state := st \<rparr>) });
          let hi = drop_bit 23 (word_of_nat (nblocks ctx) :: u32);
          let lo = (push_bit 9 (word_of_nat (nblocks ctx)) + push_bit 3 (word_of_nat (num ctx)) :: u32);
          let b = SM3_PUTU32 (block ctx) 56 hi;
          let b = SM3_PUTU32 b 60 lo;
          let ctx = ctx\<lparr> block := b, state := sm3_compress (state ctx) b \<rparr>;
          Some (ctx, fold (\<lambda>i d. SM3_PUTU32 d (i * 4) (state ctx ! i)) [0..<8] digest) }"

text \<open>The one-shot digest; \<^verbatim>\<open>new Array(32)\<close> is the output array.\<close>

definition sm3 :: "byte list \<Rightarrow> byte list option" where
  "sm3 m =
     do { let digest = replicate SM3_DIGEST_LENGTH 0;
          let ctx = sm3_ctx_new;
          let ctx = sm3_init ctx;
          ctx \<leftarrow> sm3_update ctx m;
          (ctx, digest) \<leftarrow> sm3_final ctx digest;
          Some digest }"

text \<open>
  The streaming protocol \<^verbatim>\<open>init(); update(m1); ...; update(mk); final()\<close> on a fresh
  context, with a fresh 32-slot output array as in \<open>sm3\<close>.
\<close>

fun sm3_updates :: "sm3_ctx \<Rightarrow> byte list list \<Rightarrow> sm3_ctx option" where
  "sm3_updates ctx [] = Some ctx"
| "sm3_updates ctx (m # ms) = do { ctx \<leftarrow> sm3_update ctx m; sm3_updates ctx ms }"

definition sm3_stream :: "byte list list \<Rightarrow> byte list option" where
  "sm3_stream ms =
     do { let digest = replicate SM3_DIGEST_LENGTH 0;
          let ctx = sm3_ctx_new;
          let ctx = sm3_init ctx;
          ctx \<leftarrow> sm3_updates ctx ms;
          (ctx, digest) \<leftarrow> sm3_final ctx digest;
          Some digest }"

section \<open>Keyed MAC\<close>










section \<open>Key derivation\<close>





section \<open>Notions used by the statements\<close>

text \<open>The four bytes of a 32-bit word, most significant first.\<close>

definition be32 :: "u32 \<Rightarrow> byte list" where
  "be32 v = [ucast (drop_bit 24 v), ucast (drop_bit 16 v), ucast (drop_bit 8 v), ucast v]"

text \<open>
  The eight bytes \<open>sm3_final\<close> puts at the end of the last block: the word
  \<^verbatim>\<open>nblocks >>> 23\<close>, then the word \<^verbatim>\<open>((nblocks << 9) + (num << 3)) & 0xffffffff\<close>.
\<close>

definition length_field :: "nat \<Rightarrow> nat \<Rightarrow> byte list" where
  "length_field nb n =
     be32 (drop_bit 23 (word_of_nat nb)) @ be32 (push_bit 9 (word_of_nat nb) + push_bit 3 (word_of_nat n))"

text \<open>The initial chaining state that \<open>sm3_init\<close> stores.\<close>

definition sm3_iv :: "u32 list" where
  "sm3_iv = [0x7380166F, 0x4914B2B9, 0x172442D7, 0xDA8A0600,
             0xA96F30BC, 0x163138AA, 0xE38DEE4D, 0xB0FB0E4E]"

text \<open>A context as \<open>sm3_ctx_new\<close> makes it and \<open>sm3_update\<close> keeps it.\<close>

definition ctx_ok :: "sm3_ctx \<Rightarrow> bool" where
  "ctx_ok ctx \<longleftrightarrow> length (state ctx) = 8 \<and> length (block ctx) = 64 \<and> num ctx < 64"

text \<open>
  The blocks \<open>sm3_final\<close> is to compress, in order: the pending bytes, the marker
  \<open>0x80\<close>, zeros, and the length field at bytes 56 to 63 of the last block.
\<close>

definition final_blocks :: "sm3_ctx \<Rightarrow> byte list list" where
  "final_blocks ctx =
     (let n = num ctx; pending = take n (block ctx); lf = length_field (nblocks ctx) n in
      if 8 \<le> 64 - n - 1
      then [pending @ [0x80] @ replicate (55 - n) 0 @ lf]
      else [pending @ [0x80] @ replicate (63 - n) 0, replicate 56 0 @ lf])"

text \<open>
  What \<open>sm3_update\<close> leaves in a context, in closed form. Less than a block of input is
  appended to the pending bytes. Otherwise a non-empty pending block is completed from
  the data and compressed; then \<open>blocks\<close> applications of the compression function
  follow, each on the first 64 bytes of the remaining data, because the source passes the
  same offset to every pass of its loop; the bytes after these \<open>64 * blocks\<close> become the
  new pending bytes.
\<close>

definition update_result :: "sm3_ctx \<Rightarrow> byte list \<Rightarrow> sm3_ctx" where
  "update_result ctx data =
     (let n = num ctx; len = length data in
      if n + len < 64
      then ctx\<lparr> block := take n (block ctx) @ data @ drop (n + len) (block ctx), num := n + len \<rparr>
      else
        (let left = (if n = 0 then 0 else 64 - n);
             blk1 = (if n = 0 then block ctx else take n (block ctx) @ take left data);
             st1 = (if n = 0 then state ctx else sm3_compress (state ctx) blk1);
             dl = len - left;
             blocks = dl div 64
         in ctx\<lparr> state := ((\<lambda>s. sm3_compress s (take 64 (drop left data))) ^^ blocks) st1,
                  nblocks := nblocks ctx + (if n = 0 then 0 else 1) + blocks,
                  num := dl mod 64,
                  block := drop (left + 64 * blocks) data @ drop (dl mod 64) blk1 \<rparr>))"

text \<open>The 32 bytes \<open>sm3_final\<close> emits from a context.\<close>

definition digest_of :: "sm3_ctx \<Rightarrow> byte list" where
  "digest_of ctx = concat (map be32 (foldl sm3_compress (state ctx) (final_blocks ctx)))"







definition spec_length_field :: "nat \<Rightarrow> byte list" where
  "spec_length_field bits = be32 (word_of_nat (bits div 2 ^ 32)) @ be32 (word_of_nat (bits mod 2 ^ 32))"



section \<open>The compression function in the words of the specification\<close>

text \<open>
  The definitions of this section follow the specification, not the source: the schedule
  is a function of the word index given by the recurrence, rotation is the library's
  \<open>word_rotl\<close>, one round function branches on the round index, the second-regime
  boolean functions are majority and choose, and the final registers are combined with
  the chaining state by an element-wise exclusive or. They are compared with the source's
  \<open>compress_block\<close> below.
\<close>

text \<open>A big-endian word: the bytes are the digits in base 256, most significant first.\<close>

definition be_word :: "byte list \<Rightarrow> u32" where
  "be_word bs = foldl (\<lambda>w b. w * 256 + ucast b) 0 bs"

definition spec_P0 :: "u32 \<Rightarrow> u32" where
  "spec_P0 x = x XOR word_rotl 9 x XOR word_rotl 17 x"

definition spec_P1 :: "u32 \<Rightarrow> u32" where
  "spec_P1 x = x XOR word_rotl 15 x XOR word_rotl 23 x"

function spec_W :: "byte list \<Rightarrow> nat \<Rightarrow> u32" where
  "spec_W blk j =
     (if j < 16 then be_word (take 4 (drop (4 * j) blk))
      else spec_P1 (spec_W blk (j - 16) XOR spec_W blk (j - 9) XOR word_rotl 15 (spec_W blk (j - 3)))
           XOR word_rotl 7 (spec_W blk (j - 13)) XOR spec_W blk (j - 6))"
  by pat_completeness auto
termination
  by (relation "measure (\<lambda>(blk, j). j)") auto

declare spec_W.simps [simp del]

definition spec_FF :: "nat \<Rightarrow> u32 \<Rightarrow> u32 \<Rightarrow> u32 \<Rightarrow> u32" where
  "spec_FF j x y z = (if j < 16 then x XOR y XOR z else (x AND y) OR (x AND z) OR (y AND z))"

definition spec_GG :: "nat \<Rightarrow> u32 \<Rightarrow> u32 \<Rightarrow> u32 \<Rightarrow> u32" where
  "spec_GG j x y z = (if j < 16 then x XOR y XOR z else (x AND y) OR (NOT x AND z))"

fun spec_round :: "byte list \<Rightarrow> nat \<Rightarrow> regs \<Rightarrow> regs" where
  "spec_round blk j (A, B, C, D, E, F, G, H) =
     (let SS1 = word_rotl 7 (word_rotl 12 A + E + K ! j);
          SS2 = SS1 XOR word_rotl 12 A;
          TT1 = spec_FF j A B C + D + SS2 + (spec_W blk j XOR spec_W blk (j + 4));
          TT2 = spec_GG j E F G + H + SS1 + spec_W blk j
      in (TT1, A, word_rotl 9 B, C, spec_P0 TT2, E, word_rotl 19 F, G))"

definition spec_compress :: "u32 list \<Rightarrow> byte list \<Rightarrow> u32 list" where
  "spec_compress st blk =
     (case fold (spec_round blk) [0..<64] (st ! 0, st ! 1, st ! 2, st ! 3, st ! 4, st ! 5, st ! 6, st ! 7) of
        (A, B, C, D, E, F, G, H) \<Rightarrow> map2 (XOR) st [A, B, C, D, E, F, G, H])"

text \<open>The body of the source's schedule loop, named for the proofs.\<close>

definition expand_step :: "nat \<Rightarrow> u32 list \<Rightarrow> u32 list" where
  "expand_step j W = W[j := SM3_P1 (W ! (j - 16) XOR W ! (j - 9) XOR SM3_ROL32 (W ! (j - 3)) 15)
                        XOR SM3_ROL32 (W ! (j - 13)) 7 XOR W ! (j - 6)]"

section \<open>Evaluating the compression function\<close>

text \<open>
  To run the compression function on given blocks inside the logic, the rounds are written
  here over a window of 16 schedule words that slides by one word per round, so that no
  round indexes a long array, and every sum and shift is reduced to 32 bits as soon as it
  is computed. \<open>ev_compress\<close> is proved equal to the source's \<open>sm3_compress\<close> below.
\<close>

definition nrm :: "u32 \<Rightarrow> u32" where
  "nrm x = take_bit 32 x"

definition ev_rol :: "nat \<Rightarrow> u32 \<Rightarrow> u32" where
  "ev_rol n x = nrm (push_bit n x) OR drop_bit (32 - n) x"

definition ev_next :: "u32 list \<Rightarrow> u32" where
  "ev_next ws =
     (let x = ws ! 0 XOR ws ! 7 XOR ev_rol 15 (ws ! 13)
      in x XOR ev_rol 15 x XOR ev_rol 23 x XOR ev_rol 7 (ws ! 3) XOR ws ! 10)"

fun ev_round :: "bool \<Rightarrow> u32 \<Rightarrow> u32 \<Rightarrow> u32 \<Rightarrow> regs \<Rightarrow> regs" where
  "ev_round lo k w0 w4 (A, B, C, D, E, F, G, H) =
     (let A12 = ev_rol 12 A;
          SS1 = ev_rol 7 (nrm (A12 + E + k));
          SS2 = SS1 XOR A12;
          TT1 = nrm ((if lo then A XOR B XOR C else (A AND B) OR (A AND C) OR (B AND C))
                     + D + SS2 + (w0 XOR w4));
          TT2 = nrm ((if lo then E XOR F XOR G else ((F XOR G) AND E) XOR G) + H + SS1 + w0)
      in (TT1, A, ev_rol 9 B, C, TT2 XOR ev_rol 9 TT2 XOR ev_rol 17 TT2, E, ev_rol 19 F, G))"

fun ev_rounds :: "bool \<Rightarrow> u32 list \<Rightarrow> u32 list \<times> regs \<Rightarrow> u32 list \<times> regs" where
  "ev_rounds lo [] s = s"
| "ev_rounds lo (k # ks) (ws, r) =
     ev_rounds lo ks (tl ws @ [ev_next ws], ev_round lo k (ws ! 0) (ws ! 4) r)"

fun block_words :: "byte list \<Rightarrow> u32 list" where
  "block_words (a # b # c # d # bs) = be_word [a, b, c, d] # block_words bs"
| "block_words bs = []"

definition ev_compress :: "u32 list \<Rightarrow> u32 list \<Rightarrow> u32 list" where
  "ev_compress st ws =
     (case ev_rounds False (drop 16 K)
             (ev_rounds True (take 16 K)
                (ws, (st ! 0, st ! 1, st ! 2, st ! 3, st ! 4, st ! 5, st ! 6, st ! 7))) of
        (ws', (A, B, C, D, E, F, G, H)) \<Rightarrow> map2 (XOR) st [A, B, C, D, E, F, G, H])"

section \<open>Arrays as objects\<close>
































section \<open>Arrays, copying and filling\<close>

lemma length_js_set: "length (js_set a i v) = max (length a) (Suc i)"
  by (simp add: js_set_def)

lemma js_get_js_set: "js_get (js_set a i v) j = (if j = i then v else js_get a j)"
  by (auto simp: js_set_def js_get_def nth_append)

lemma js_set_in_range: "i < length a \<Longrightarrow> js_set a i v = a[i := v]"
  by (simp add: js_set_def)

lemma sm3_memcpy_returns:
  "0 \<le> len \<Longrightarrow> \<exists>r. sm3_memcpy dst dst_offset src src_offset len = Some r"
proof (induction dst dst_offset src src_offset len rule: sm3_memcpy.induct)
  case (1 dst dst_offset src src_offset len)
  show ?case
  proof (cases "len = 0")
    case True
    then show ?thesis by (subst sm3_memcpy.simps) simp
  next
    case False
    with "1.prems" have "0 \<le> len - 1" by simp
    with "1.IH" False "1.prems" show ?thesis by (subst sm3_memcpy.simps) simp
  qed
qed

lemma sm3_memset_returns:
  "0 \<le> len \<Longrightarrow> \<exists>r. sm3_memset dst offset val len = Some r"
proof (induction dst offset val len rule: sm3_memset.induct)
  case (1 dst offset val len)
  show ?case
  proof (cases "len = 0")
    case True
    then show ?thesis by (subst sm3_memset.simps) simp
  next
    case False
    with "1.prems" have "0 \<le> len - 1" by simp
    with "1.IH" False "1.prems" show ?thesis by (subst sm3_memset.simps) simp
  qed
qed

lemma sm3_memset_in_range:
  "offset + n \<le> length dst \<Longrightarrow>
   sm3_memset dst offset val (int n) = Some (take offset dst @ replicate n val @ drop (offset + n) dst)"
proof (induction n arbitrary: dst offset)
  case 0
  then show ?case by (subst sm3_memset.simps) simp
next
  case (Suc n)
  have "sm3_memset dst offset val (int (Suc n)) = sm3_memset (js_set dst offset val) (offset + 1) val (int n)"
    by (subst sm3_memset.simps) simp
  also have "\<dots> = Some (take (offset + 1) (dst[offset := val]) @ replicate n val @ drop (offset + 1 + n) (dst[offset := val]))"
    using Suc.prems Suc.IH [of "offset + 1" "dst[offset := val]"] by (simp add: js_set_in_range)
  also have "take (offset + 1) (dst[offset := val]) = take offset dst @ [val]"
    using Suc.prems by (simp add: take_Suc_conv_app_nth)
  finally show ?case by (simp add: replicate_app_Cons_same)
qed

lemma sm3_memcpy_in_range:
  "dst_offset + n \<le> length dst \<Longrightarrow> src_offset + n \<le> length src \<Longrightarrow>
   sm3_memcpy dst dst_offset src src_offset (int n) =
     Some (take dst_offset dst @ take n (drop src_offset src) @ drop (dst_offset + n) dst)"
proof (induction n arbitrary: dst dst_offset src_offset)
  case 0
  then show ?case by (subst sm3_memcpy.simps) simp
next
  case (Suc n)
  have "sm3_memcpy dst dst_offset src src_offset (int (Suc n)) =
        sm3_memcpy (js_set dst dst_offset (js_get src src_offset)) (dst_offset + 1) src (src_offset + 1) (int n)"
    by (subst sm3_memcpy.simps) simp
  also have "\<dots> = Some (take (dst_offset + 1) (dst[dst_offset := src ! src_offset]) @ take n (drop (src_offset + 1) src)
            @ drop (dst_offset + 1 + n) (dst[dst_offset := src ! src_offset]))"
    using Suc.prems Suc.IH [of "dst_offset + 1" "dst[dst_offset := src ! src_offset]" "src_offset + 1"]
    by (simp add: js_set_in_range js_get_def)
  also have "take (dst_offset + 1) (dst[dst_offset := src ! src_offset]) = take dst_offset dst @ [src ! src_offset]"
    using Suc.prems by (simp add: take_Suc_conv_app_nth)
  finally have step: "sm3_memcpy dst dst_offset src src_offset (int (Suc n)) =
      Some ((take dst_offset dst @ [src ! src_offset]) @ take n (drop (src_offset + 1) src)
            @ drop (dst_offset + 1 + n) (dst[dst_offset := src ! src_offset]))" .
  have "take (Suc n) (drop src_offset src) = src ! src_offset # take n (drop (src_offset + 1) src)"
    using Suc.prems by (simp add: Cons_nth_drop_Suc [symmetric])
  with step show ?case by simp
qed

lemma sm3_update_rest_counts:
  "\<exists>ctx'. sm3_update_rest ctx data data_offset data_len = Some ctx'
      \<and> num ctx' = data_len mod 64
      \<and> nblocks ctx' = nblocks ctx + data_len div 64"
proof -
  obtain r where r: "sm3_memcpy (block ctx) 0 data (data_offset + 64 * (data_len div 64)) (int (data_len mod 64)) = Some r"
    using sm3_memcpy_returns [of "int (data_len mod 64)" "block ctx" 0 data "data_offset + 64 * (data_len div 64)"] by auto
  obtain r' where r': "sm3_memcpy (block ctx) 0 data data_offset (int data_len) = Some r'"
    using sm3_memcpy_returns [of "int data_len" "block ctx" 0 data data_offset] by auto
  have m: "data_len - 64 * (data_len div 64) = data_len mod 64"
    by (simp add: minus_mult_div_eq_mod)
  show ?thesis
  proof (cases "data_len div 64 > 0")
    case True
    then show ?thesis using r m
      by (auto simp: sm3_update_rest_def SM3_BLOCK_SIZE_def Let_def)
  next
    case False
    then have "data_len < 64" by simp
    then show ?thesis using r' False
      by (auto simp: sm3_update_rest_def SM3_BLOCK_SIZE_def Let_def)
  qed
qed

lemma sm3_update_counts:
  assumes "num ctx < 64"
  shows "\<exists>ctx'. sm3_update ctx data = Some ctx'
      \<and> num ctx' = (num ctx + length data) mod 64
      \<and> nblocks ctx' = nblocks ctx + (num ctx + length data) div 64"
proof (cases "num ctx = 0")
  case True
  then show ?thesis
    using sm3_update_rest_counts [of ctx data 0 "length data"]
    by (auto simp: sm3_update_def)
next
  case False
  show ?thesis
  proof (cases "num ctx + length data < 64")
    case True
    obtain r where "sm3_memcpy (block ctx) (num ctx) data 0 (int (length data)) = Some r"
      using sm3_memcpy_returns [of "int (length data)" "block ctx" "num ctx" data 0] by auto
    with True False show ?thesis
      by (auto simp: sm3_update_def SM3_BLOCK_SIZE_def Let_def)
  next
    case ge: False
    define left where "left = 64 - num ctx"
    obtain r where r: "sm3_memcpy (block ctx) (num ctx) data 0 (int left) = Some r"
      using sm3_memcpy_returns [of "int left" "block ctx" "num ctx" data 0] by auto
    define c1 where "c1 = ctx\<lparr> block := r, state := sm3_compress_blocks (state ctx) r 0 1,
                               nblocks := nblocks ctx + 1 \<rparr>"
    obtain ctx' where c': "sm3_update_rest c1 data left (length data - left) = Some ctx'"
      "num ctx' = (length data - left) mod 64"
      "nblocks ctx' = nblocks c1 + (length data - left) div 64"
      using sm3_update_rest_counts [of c1 data left "length data - left"] by auto
    have il: "int SM3_BLOCK_SIZE - int (num ctx) = int left"
      using assms by (simp add: left_def SM3_BLOCK_SIZE_def)
    have nl: "\<not> int (length data) < int left"
      using ge assms by (simp add: left_def)
    have upd: "sm3_update ctx data = Some ctx'"
      using False r c'(1) nl unfolding sm3_update_def Let_def il
      by (simp add: c1_def)
    have e: "num ctx + length data = 64 + (length data - left)"
      using ge assms by (simp add: left_def)
    have "(num ctx + length data) mod 64 = (length data - left) mod 64"
      unfolding e by simp
    moreover have "(num ctx + length data) div 64 = 1 + (length data - left) div 64"
      unfolding e by simp
    ultimately show ?thesis using upd c'(2,3) by (simp add: c1_def)
  qed
qed

lemma sm3_final_num:
  "sm3_final ctx d = Some (ctx', d') \<Longrightarrow> num ctx' = num ctx \<and> nblocks ctx' = nblocks ctx"
  by (auto simp: sm3_final_def Let_def split: bind_splits if_splits)

lemma sm3_final_returns:
  assumes "num ctx < 64"
  shows "\<exists>ctx' d'. sm3_final ctx d = Some (ctx', d')"
proof (cases "num ctx + 9 \<le> 64")
  case True
  obtain b where "sm3_memset (js_set (block ctx) (num ctx) 0x80) (num ctx + 1) 0 (64 - int (num ctx) - 9) = Some b"
    using sm3_memset_returns [of "64 - int (num ctx) - 9" "js_set (block ctx) (num ctx) 0x80" "num ctx + 1" 0] True
    by auto
  with True show ?thesis
    by (simp add: sm3_final_def SM3_BLOCK_SIZE_def Let_def)
next
  case False
  obtain b where b: "sm3_memset (js_set (block ctx) (num ctx) 0x80) (num ctx + 1) 0 (64 - int (num ctx) - 1) = Some b"
    using sm3_memset_returns [of "64 - int (num ctx) - 1" "js_set (block ctx) (num ctx) 0x80" "num ctx + 1" 0] assms
    by auto
  obtain b' where "sm3_memset b 0 0 56 = Some b'"
    using sm3_memset_returns [of 56 b 0 0] by auto
  with b False show ?thesis
    by (simp add: sm3_final_def SM3_BLOCK_SIZE_def Let_def)
qed

text \<open>
  Claim C9. The fill count \<open>num\<close> is below 64 after \<open>sm3_init\<close>, and from a context whose
  fill count is below 64 every \<open>sm3_update\<close>, with data of any length, returns a context
  whose fill count is below 64 again; \<open>sm3_final\<close> returns too and leaves the fill count
  as it was.
\<close>

theorem pending_invariant:
  assumes "num ctx < 64"
  shows "num (sm3_init ctx0) < 64
   \<and> (\<exists>ctx'. sm3_update ctx data = Some ctx' \<and> num ctx' < 64)
   \<and> (\<exists>ctx' d'. sm3_final ctx d = Some (ctx', d') \<and> num ctx' < 64)"
proof (intro conjI)
  show "num (sm3_init ctx0) < 64"
    by (simp add: sm3_init_def)
next
  obtain ctx' where "sm3_update ctx data = Some ctx'" "num ctx' = (num ctx + length data) mod 64"
    using sm3_update_counts [OF assms, of data] by auto
  then show "\<exists>ctx'. sm3_update ctx data = Some ctx' \<and> num ctx' < 64"
    by simp
next
  obtain ctx' d' where f: "sm3_final ctx d = Some (ctx', d')"
    using sm3_final_returns [OF assms, of d] by auto
  then have "num ctx' = num ctx"
    by (simp add: sm3_final_num)
  with f assms show "\<exists>ctx' d'. sm3_final ctx d = Some (ctx', d') \<and> num ctx' < 64"
    by simp
qed

theorem pending_invariant_witness:
  "num sm3_ctx_new < 64
   \<and> num (sm3_init sm3_ctx_new) < 64
   \<and> (\<exists>ctx'. sm3_update sm3_ctx_new [1, 2, 3] = Some ctx' \<and> num ctx' < 64)
   \<and> (\<exists>ctx' d'. sm3_final sm3_ctx_new [] = Some (ctx', d') \<and> num ctx' < 64)"
proof -
  have n: "num sm3_ctx_new < 64"
    by (simp add: sm3_ctx_new_def sm3_init_def)
  with pending_invariant [OF n, of sm3_ctx_new "[1, 2, 3]" "[]"] show ?thesis
    by simp
qed

lemma length_SM3_PUTU32: "length (SM3_PUTU32 d off v) = max (length d) (off + 4)"
  by (simp add: SM3_PUTU32_def Let_def length_js_set)

lemma js_get_SM3_PUTU32:
  "js_get (SM3_PUTU32 d off v) j =
     (if j = off then ucast (drop_bit 24 v)
      else if j = off + 1 then ucast (drop_bit 16 v)
      else if j = off + 2 then ucast (drop_bit 8 v)
      else if j = off + 3 then ucast v
      else js_get d j)"
  by (simp add: SM3_PUTU32_def Let_def js_get_js_set drop_bit_drop_bit)

lemma SM3_PUTU32_closed:
  assumes "off \<le> length d"
  shows "SM3_PUTU32 d off v = take off d @ be32 v @ drop (off + 4) d"
proof (rule nth_equalityI)
  show len: "length (SM3_PUTU32 d off v) = length (take off d @ be32 v @ drop (off + 4) d)"
    using assms by (simp add: length_SM3_PUTU32 be32_def)
  fix i
  assume "i < length (SM3_PUTU32 d off v)"
  then have i: "i < max (length d) (off + 4)"
    by (simp add: length_SM3_PUTU32)
  have "SM3_PUTU32 d off v ! i = js_get (SM3_PUTU32 d off v) i"
    using i by (simp add: js_get_def length_SM3_PUTU32)
  also have "\<dots> = (take off d @ be32 v @ drop (off + 4) d) ! i"
  proof -
    consider "i < off" | "i = off" | "i = off + 1" | "i = off + 2" | "i = off + 3" | "off + 4 \<le> i"
      by linarith
    then show ?thesis
    proof cases
      case 1
      then show ?thesis using assms by (simp add: js_get_SM3_PUTU32 nth_append) (simp add: js_get_def)
    next
      case 2
      then show ?thesis using assms by (simp add: js_get_SM3_PUTU32 nth_append be32_def)
    next
      case 3
      then show ?thesis using assms by (simp add: js_get_SM3_PUTU32 nth_append be32_def)
    next
      case 4
      then show ?thesis using assms by (simp add: js_get_SM3_PUTU32 nth_append be32_def)
    next
      case 5
      then show ?thesis using assms by (simp add: js_get_SM3_PUTU32 nth_append be32_def)
    next
      case 6
      with i have "i < length d" by simp
      with 6 show ?thesis using assms by (simp add: js_get_SM3_PUTU32 nth_append be32_def) (simp add: js_get_def)
    qed
  qed
  finally show "SM3_PUTU32 d off v ! i = (take off d @ be32 v @ drop (off + 4) d) ! i" .
qed

lemma length_be32: "length (be32 v) = 4"
  by (simp add: be32_def)

lemma u8: "[0..<8] = [0, 1, 2, 3, 4, 5, 6, 7]"
  by (simp add: upt_rec)

lemma put_state_closed:
  "fold (\<lambda>i d. SM3_PUTU32 d (i * 4) (st ! i)) [0..<8] d =
     be32 (st ! 0) @ be32 (st ! 1) @ be32 (st ! 2) @ be32 (st ! 3) @
     be32 (st ! 4) @ be32 (st ! 5) @ be32 (st ! 6) @ be32 (st ! 7) @ drop 32 d"
  by (simp add: u8 SM3_PUTU32_closed length_be32)

lemma list8: "length (st :: 'a list) = 8 \<Longrightarrow> \<exists>a b c d e f g h. st = [a, b, c, d, e, f, g, h]"
  by (auto simp: numeral_eq_Suc length_Suc_conv)

lemma put_state_concat:
  assumes "length st = 8"
  shows "fold (\<lambda>i d. SM3_PUTU32 d (i * 4) (st ! i)) [0..<8] d = concat (map be32 st) @ drop 32 d"
proof -
  obtain a b c d' e f g h where "st = [a, b, c, d', e, f, g, h]"
    using list8 [OF assms] by blast
  then show ?thesis
    by (simp add: put_state_closed)
qed

lemma length_compress_block: "length (compress_block st data off) = length st"
  by (simp add: compress_block_def Let_def split: prod.splits)

lemma length_sm3_compress: "length (sm3_compress st b) = length st"
  by (simp add: sm3_compress_def length_compress_block)

lemma length_length_field: "length (length_field nb n) = 8"
  by (simp add: length_field_def length_be32)

lemma put_length_field:
  assumes "length b = 64"
  shows "SM3_PUTU32 (SM3_PUTU32 b 56 hi) 60 lo = take 56 b @ be32 hi @ be32 lo"
  using assms by (simp add: SM3_PUTU32_closed length_be32)

lemma sm3_final_closed:
  assumes "ctx_ok ctx"
  shows "sm3_final ctx d =
     Some (ctx\<lparr> block := last (final_blocks ctx),
                 state := foldl sm3_compress (state ctx) (final_blocks ctx) \<rparr>,
           concat (map be32 (foldl sm3_compress (state ctx) (final_blocks ctx))) @ drop 32 d)"
proof -
  obtain st blk nb n where ctx: "ctx = \<lparr> state = st, block = blk, nblocks = nb, num = n \<rparr>"
    by (cases ctx)
  define lf where "lf = length_field nb n"
  define hi :: u32 where "hi = drop_bit 23 (word_of_nat nb)"
  define lo :: u32 where "lo = push_bit 9 (word_of_nat nb) + push_bit 3 (word_of_nat n)"
  have lf: "lf = be32 hi @ be32 lo"
    by (simp add: lf_def length_field_def hi_def lo_def)
  from assms have len: "length blk = 64" and n: "n < 64" and st: "length st = 8"
    by (simp_all add: ctx_ok_def ctx)
  have mark: "js_set blk n 0x80 = blk[n := 0x80]"
    using len n by (simp add: js_set_in_range)
  show ?thesis
  proof (cases "n + 9 \<le> 64")
    case True
    then have i: "int SM3_BLOCK_SIZE - int n - 9 = int (55 - n)"
      by (simp add: SM3_BLOCK_SIZE_def)
    have "sm3_memset (blk[n := 0x80]) (n + 1) 0 (int (55 - n)) =
          Some (take (n + 1) (blk[n := 0x80]) @ replicate (55 - n) 0 @ drop (n + 1 + (55 - n)) (blk[n := 0x80]))"
      using True len by (intro sm3_memset_in_range) simp
    moreover have "take (n + 1) (blk[n := 0x80]) = take n blk @ [0x80]"
      using len n by (simp add: take_Suc_conv_app_nth)
    moreover have "n + 1 + (55 - n) = 56"
      using True by simp
    ultimately have ms: "sm3_memset (blk[n := 0x80]) (n + 1) 0 (int (55 - n)) =
          Some (take n blk @ [0x80] @ replicate (55 - n) 0 @ drop 56 blk)"
      using n by simp
    have "int (55 - n) = 55 - int n"
      using True by simp
    with ms have ms: "sm3_memset (blk[n := 0x80]) (Suc n) 0 (55 - int n) =
          Some (take n blk @ [0x80] @ replicate (55 - n) 0 @ drop 56 blk)"
      by simp
    define b where "b = take n blk @ [0x80] @ replicate (55 - n) 0 @ drop 56 blk"
    have lb: "length b = 64"
      using True len by (simp add: b_def)
    have e: "56 - n = Suc (55 - n)"
      using True by simp
    have t56: "take 56 b = take n blk @ [0x80] @ replicate (55 - n) 0"
      using len n True by (simp add: b_def e min_def)
    have fb: "final_blocks ctx = [take n blk @ [0x80] @ replicate (55 - n) 0 @ lf]"
      using True by (simp add: final_blocks_def Let_def ctx lf_def)
    have pf: "SM3_PUTU32 (SM3_PUTU32 (take n blk @ 0x80 # replicate (55 - n) 0 @ drop 56 blk) 56 hi) 60 lo
          = take n blk @ 0x80 # replicate (55 - n) 0 @ be32 hi @ be32 lo"
      using put_length_field [OF lb, of hi lo] t56 by (simp add: b_def)
    have S: "length (sm3_compress st (take n blk @ 0x80 # replicate (55 - n) 0 @ be32 hi @ be32 lo)) = 8"
      by (simp add: length_sm3_compress st)
    show ?thesis
      unfolding sm3_final_def Let_def fb
      using True
      by (simp add: ctx mark SM3_BLOCK_SIZE_def ms hi_def [symmetric] lo_def [symmetric]
            pf lf put_state_concat [OF S])
  next
    case False
    then have i: "int SM3_BLOCK_SIZE - int n - 1 = int (63 - n)"
      using n by (simp add: SM3_BLOCK_SIZE_def)
    have "sm3_memset (blk[n := 0x80]) (n + 1) 0 (int (63 - n)) =
          Some (take (n + 1) (blk[n := 0x80]) @ replicate (63 - n) 0 @ drop (n + 1 + (63 - n)) (blk[n := 0x80]))"
      using n len by (intro sm3_memset_in_range) simp
    moreover have "take (n + 1) (blk[n := 0x80]) = take n blk @ [0x80]"
      using len n by (simp add: take_Suc_conv_app_nth)
    moreover have "n + 1 + (63 - n) = 64"
      using n by simp
    ultimately have ms: "sm3_memset (blk[n := 0x80]) (n + 1) 0 (int (63 - n)) =
          Some (take n blk @ [0x80] @ replicate (63 - n) 0)"
      using n len by simp
    have "int (63 - n) = 63 - int n"
      using n by simp
    with ms have ms: "sm3_memset (blk[n := 0x80]) (Suc n) 0 (63 - int n) =
          Some (take n blk @ [0x80] @ replicate (63 - n) 0)"
      by simp
    define b1 where "b1 = take n blk @ [0x80] @ replicate (63 - n) 0"
    have lb1: "length b1 = 64"
      using n len by (simp add: b1_def)
    have ms2: "sm3_memset b1 0 0 (int 56) = Some (take 0 b1 @ replicate 56 0 @ drop (0 + 56) b1)"
      using lb1 by (intro sm3_memset_in_range) simp
    define b2 where "b2 = replicate 56 (0 :: byte) @ drop 56 b1"
    have ms2': "sm3_memset b1 0 0 56 = Some b2"
      using ms2 by (simp add: b2_def)
    have lb2: "length b2 = 64"
      using lb1 by (simp add: b2_def)
    have t56: "take 56 b2 = replicate 56 0"
      by (simp add: b2_def)
    have fb: "final_blocks ctx = [b1, replicate 56 0 @ lf]"
      using False by (simp add: final_blocks_def Let_def ctx lf_def b1_def)
    have pf: "SM3_PUTU32 (SM3_PUTU32 b2 56 hi) 60 lo = replicate 56 0 @ be32 hi @ be32 lo"
      using put_length_field [OF lb2, of hi lo] t56 by simp
    have ms1: "sm3_memset (blk[n := 0x80]) (Suc n) 0 (63 - int n) = Some b1"
      using ms by (simp add: b1_def)
    have S: "length (sm3_compress (sm3_compress st b1) (replicate 56 0 @ be32 hi @ be32 lo)) = 8"
      by (simp add: length_sm3_compress st)
    show ?thesis
      unfolding sm3_final_def Let_def fb
      using False
      by (simp add: ctx mark SM3_BLOCK_SIZE_def ms1 ms2' hi_def [symmetric] lo_def [symmetric]
            pf lf put_state_concat [OF S])
  qed
qed

lemma js_set_closed: "i \<le> length a \<Longrightarrow> js_set a i v = take i a @ [v] @ drop (i + 1) a"
  by (cases "i < length a") (simp_all add: js_set_def upd_conv_take_nth_drop)

lemma zero_fill:
  "fold (\<lambda>i b. js_set b i 0) [0..<n] b = replicate n 0 @ drop n b"
proof (induction n)
  case 0
  then show ?case by simp
next
  case (Suc n)
  have "fold (\<lambda>i b. js_set b i 0) [0..<Suc n] b = js_set (replicate n 0 @ drop n b) n 0"
    using Suc.IH by simp
  also have "\<dots> = take n (replicate n 0 @ drop n b) @ [0] @ drop (n + 1) (replicate n 0 @ drop n b)"
    by (intro js_set_closed) simp
  also have "\<dots> = replicate (Suc n) 0 @ drop (Suc n) b"
    by (simp add: replicate_append_same)
  finally show ?case .
qed

lemma sm3_init_closed:
  assumes "length (state ctx) = 8"
  shows "sm3_init ctx = ctx\<lparr> block := replicate 64 0 @ drop 64 (block ctx), nblocks := 0, num := 0,
                            state := sm3_iv \<rparr>"
proof -
  obtain a b c d e f g h where "state ctx = [a, b, c, d, e, f, g, h]"
    using list8 [OF assms] by blast
  then show ?thesis
    by (simp add: sm3_init_def zero_fill SM3_BLOCK_SIZE_def sm3_iv_def)
qed

lemma sm3_ctx_new_closed:
  "sm3_ctx_new = \<lparr> state = sm3_iv, block = replicate 64 0, nblocks = 0, num = 0 \<rparr>"
  by (simp add: sm3_ctx_new_def sm3_init_closed)

lemma ctx_ok_new: "ctx_ok sm3_ctx_new"
  by (simp add: sm3_ctx_new_closed ctx_ok_def sm3_iv_def)

lemma sm3_init_new: "sm3_init sm3_ctx_new = sm3_ctx_new"
  by (simp add: sm3_init_closed sm3_ctx_new_closed sm3_iv_def)

lemma length_final_blocks:
  assumes "ctx_ok ctx"
  shows "\<forall>b \<in> set (final_blocks ctx). length b = 64"
proof -
  from assms have "length (block ctx) = 64" "num ctx < 64"
    by (simp_all add: ctx_ok_def)
  then show ?thesis
    by (auto simp: final_blocks_def Let_def length_length_field)
qed

text \<open>
  The layout of the padding. On a context with a 64-byte block and fewer than 64 pending
  bytes, \<open>sm3_final\<close> returns, and it has compressed exactly the blocks of \<open>final_blocks\<close>,
  in order: one block when \<open>64 - num - 1 \<ge> 8\<close>, two otherwise, each of 64 bytes, the marker
  \<open>0x80\<close> at position \<open>num\<close> of the first. The output array receives the eight words of
  the resulting chaining state as 32 big-endian bytes.
\<close>

lemma sm3_final_layout:
  assumes "ctx_ok ctx"
  shows "\<exists>ctx' d'. sm3_final ctx d = Some (ctx', d')
     \<and> state ctx' = foldl sm3_compress (state ctx) (final_blocks ctx)
     \<and> block ctx' = last (final_blocks ctx)
     \<and> d' = concat (map be32 (state ctx')) @ drop 32 d
     \<and> length (concat (map be32 (state ctx'))) = 32
     \<and> (\<forall>b \<in> set (final_blocks ctx). length b = 64)
     \<and> hd (final_blocks ctx) ! num ctx = 0x80
     \<and> length (final_blocks ctx) = (if 8 \<le> 64 - num ctx - 1 then 1 else 2)"
proof -
  define S where "S = foldl sm3_compress (state ctx) (final_blocks ctx)"
  from assms have len: "length (block ctx) = 64" "num ctx < 64" "length (state ctx) = 8"
    by (simp_all add: ctx_ok_def)
  have "length S = 8"
    using len(3) by (simp add: S_def final_blocks_def Let_def length_sm3_compress)
  then obtain a b c d' e f g h where "S = [a, b, c, d', e, f, g, h]"
    using list8 by blast
  then have l32: "length (concat (map be32 S)) = 32"
    by (simp add: length_be32)
  have mk: "hd (final_blocks ctx) ! num ctx = 0x80"
    using len by (simp add: final_blocks_def Let_def nth_append)
  have cnt: "length (final_blocks ctx) = (if 8 \<le> 64 - num ctx - 1 then 1 else 2)"
    by (simp add: final_blocks_def Let_def)
  show ?thesis
    using sm3_final_closed [OF assms, of d] l32 length_final_blocks [OF assms] mk cnt
    by (simp add: S_def)
qed

lemma SM3_ROL32_rotl:
  assumes "0 < n" "n < 32"
  shows "SM3_ROL32 x n = word_rotl n x"
proof (rule bit_word_eqI)
  fix i
  assume "i < LENGTH(32)"
  then have i: "i < 32" by simp
  have r: "bit (word_rotl n x) i = bit x ((i + (32 - n)) mod 32)"
    using assms i by (simp add: bit_word_rotl_iff)
  have l: "bit (SM3_ROL32 x n) i = ((n \<le> i \<and> bit x (i - n)) \<or> bit x (32 - n + i))"
    using i by (simp add: SM3_ROL32_def bit_or_iff bit_push_bit_iff bit_drop_bit_eq)
  show "bit (SM3_ROL32 x n) i = bit (word_rotl n x) i"
  proof (cases "n \<le> i")
    case True
    then have "(i + (32 - n)) mod 32 = i - n"
      using assms i by (simp add: mod_if)
    moreover have "\<not> bit x (32 - n + i)"
      using True assms bit_imp_le_length [of x "32 - n + i"] by auto
    ultimately show ?thesis
      using True by (simp add: l r)
  next
    case False
    then have "i + (32 - n) < 32"
      using assms i by simp
    then have "(i + (32 - n)) mod 32 = 32 - n + i"
      by (simp add: add.commute)
    then show ?thesis
      using False by (simp add: l r)
  qed
qed

lemma SM3_P0_spec: "SM3_P0 x = spec_P0 x"
  by (simp add: SM3_P0_def spec_P0_def SM3_ROL32_rotl)

lemma SM3_P1_spec: "SM3_P1 x = spec_P1 x"
  by (simp add: SM3_P1_def spec_P1_def SM3_ROL32_rotl)

lemma SM3_GG16_choose: "SM3_GG16 x y z = (x AND y) OR (NOT x AND z)"
  by (rule bit_word_eqI) (auto simp: SM3_GG16_def bit_simps)

lemma shl8_add: "(w :: u32) * 256 + ucast (b :: byte) = push_bit 8 w OR ucast b"
proof -
  have "w * 256 = push_bit 8 w"
    by (simp add: push_bit_eq_mult)
  moreover have "push_bit 8 w + ucast b = push_bit 8 w OR ucast b"
  proof (rule disjunctive_add)
    fix n
    show "\<not> bit (push_bit 8 w) n \<or> \<not> bit (ucast b :: u32) n"
      using bit_imp_le_length [of b n] by (auto simp: bit_simps)
  qed
  ultimately show ?thesis by simp
qed

lemma SM3_GETU32_be_word:
  assumes "off + 4 \<le> length data"
  shows "SM3_GETU32 data off = be_word (take 4 (drop off data))"
proof -
  have t: "take 4 (drop off data) = [data ! off, data ! (off + 1), data ! (off + 2), data ! (off + 3)]"
    using assms by (auto simp: list_eq_iff_nth_eq nth_Cons' numeral_eq_Suc less_Suc_eq add.commute)
  have "be_word [a, b, c, d] = push_bit 24 (ucast a) OR push_bit 16 (ucast b) OR push_bit 8 (ucast c) OR ucast d"
    for a b c d :: byte
    by (simp add: be_word_def shl8_add) (rule bit_word_eqI, auto simp: bit_simps)
  then show ?thesis
    using assms by (simp add: t SM3_GETU32_def js_get_def)
qed

lemma load_W_upto:
  assumes "n \<le> length W"
  shows "length (fold (\<lambda>j W. W[j := g j]) [0..<n] W) = length W
       \<and> (\<forall>j<n. fold (\<lambda>j W. W[j := g j]) [0..<n] W ! j = g j)"
  using assms
proof (induction n)
  case 0
  then show ?case by simp
next
  case (Suc n)
  then show ?case
    by (auto simp: nth_list_update less_Suc_eq)
qed

lemma load_W_get:
  "length (load_W (replicate 68 0) blk off) = 68
   \<and> (\<forall>j<16. load_W (replicate 68 0) blk off ! j = SM3_GETU32 blk (off + j * 4))"
proof -
  have "(16::nat) \<le> length (replicate 68 (0::u32))"
    by simp
  from load_W_upto [OF this, of "\<lambda>j. SM3_GETU32 blk (off + j * 4)"]
  show ?thesis
    unfolding load_W_def by (simp only: length_replicate) blast
qed

lemma length_load_W: "length (load_W (replicate 68 0) blk off) = 68"
  using load_W_get by blast

lemma load_W_spec:
  assumes "length blk = 64" "j < 16"
  shows "load_W (replicate 68 0) blk 0 ! j = spec_W blk j"
proof -
  have "load_W (replicate 68 0) blk 0 ! j = SM3_GETU32 blk (0 + j * 4)"
    using load_W_get assms(2) by blast
  also have "\<dots> = be_word (take 4 (drop (j * 4) blk))"
    using assms by (simp add: SM3_GETU32_be_word)
  also have "\<dots> = spec_W blk j"
    using assms(2) by (subst spec_W.simps) (simp add: mult.commute)
  finally show ?thesis .
qed

lemma expand_upto:
  assumes "length W = 68" "\<forall>j<16. W ! j = spec_W blk j" "16 + k \<le> 68"
  shows "length (fold expand_step [16..<16 + k] W) = 68
       \<and> (\<forall>j<16 + k. fold expand_step [16..<16 + k] W ! j = spec_W blk j)"
  using assms(3)
proof (induction k)
  case 0
  then show ?case using assms(1,2) by simp
next
  case (Suc k)
  define E where "E = fold expand_step [16..<16 + k] W"
  from Suc have E: "length E = 68" "\<forall>j<16 + k. E ! j = spec_W blk j"
    by (simp_all add: E_def)
  have "[16..<16 + Suc k] = [16..<16 + k] @ [16 + k]"
    by (simp only: add_Suc_right upt_Suc_append le_add1)
  then have step: "fold expand_step [16..<16 + Suc k] W = expand_step (16 + k) E"
    by (simp only: fold_append fold_simps comp_apply E_def)
  have new: "expand_step (16 + k) E ! (16 + k) = spec_W blk (16 + k)"
    using E Suc.prems
    by (subst spec_W.simps) (simp add: expand_step_def SM3_P1_spec SM3_ROL32_rotl)
  have old: "expand_step (16 + k) E ! j = E ! j" if "j < 16 + k" for j
    using that by (simp add: expand_step_def)
  have "length (expand_step (16 + k) E) = 68"
    using E by (simp add: expand_step_def)
  moreover have "\<forall>j<16 + Suc k. expand_step (16 + k) E ! j = spec_W blk j"
  proof (intro allI impI)
    fix j
    assume "j < 16 + Suc k"
    then consider "j < 16 + k" | "j = 16 + k"
      by linarith
    then show "expand_step (16 + k) E ! j = spec_W blk j"
      using new old E(2) by cases simp_all
  qed
  ultimately show ?case
    unfolding step by simp
qed

lemma expand_W_spec:
  assumes "length blk = 64" "j < 68"
  shows "expand_W (load_W (replicate 68 0) blk 0) ! j = spec_W blk j"
proof -
  let ?W0 = "load_W (replicate 68 0) blk 0"
  have n: "(16::nat) + 52 = 68"
    by simp
  have e: "expand_W ?W0 = fold expand_step [16..<16 + 52] ?W0"
    unfolding expand_W_def expand_step_def [abs_def] n ..
  have w0: "\<forall>j<16. ?W0 ! j = spec_W blk j"
    using load_W_spec [OF assms(1)] by blast
  have le: "(16::nat) + 52 \<le> 68"
    by simp
  from expand_upto [OF length_load_W w0 le]
  have "\<forall>j<16 + 52. fold expand_step [16..<16 + 52] ?W0 ! j = spec_W blk j"
    by blast
  then show ?thesis
    unfolding e n using assms(2) by blast
qed

lemma round00_spec:
  assumes "j < 16" "W ! j = spec_W blk j" "W ! (j + 4) = spec_W blk (j + 4)"
  shows "round00 W j r = spec_round blk j r"
proof -
  obtain A B C D E F G H where r: "r = (A, B, C, D, E, F, G, H)"
    by (metis surj_pair)
  show ?thesis
    using assms unfolding r
    by (simp add: Let_def SM3_ROL32_rotl SM3_FF00_def SM3_GG00_def spec_FF_def spec_GG_def SM3_P0_spec)
qed

lemma round16_spec:
  assumes "16 \<le> j" "W ! j = spec_W blk j" "W ! (j + 4) = spec_W blk (j + 4)"
  shows "round16 W j r = spec_round blk j r"
proof -
  obtain A B C D E F G H where r: "r = (A, B, C, D, E, F, G, H)"
    by (metis surj_pair)
  show ?thesis
    using assms unfolding r
    by (simp add: Let_def SM3_ROL32_rotl SM3_FF16_def SM3_GG16_choose spec_FF_def spec_GG_def SM3_P0_spec)
qed

lemma fold_round00_spec:
  assumes "\<forall>j<68. W ! j = spec_W blk j" "\<forall>j \<in> set js. j < 16"
  shows "fold (round00 W) js r = fold (spec_round blk) js r"
  using assms(2)
proof (induction js arbitrary: r)
  case Nil
  then show ?case by simp
next
  case (Cons j js)
  then have "j < 16" by simp
  then have "round00 W j r = spec_round blk j r"
    using assms(1) by (intro round00_spec) simp_all
  with Cons show ?case by simp
qed

lemma fold_round16_spec:
  assumes "\<forall>j<68. W ! j = spec_W blk j" "\<forall>j \<in> set js. 16 \<le> j \<and> j < 64"
  shows "fold (round16 W) js r = fold (spec_round blk) js r"
  using assms(2)
proof (induction js arbitrary: r)
  case Nil
  then show ?case by simp
next
  case (Cons j js)
  then have "16 \<le> j" "j < 64" by simp_all
  then have "round16 W j r = spec_round blk j r"
    using assms(1) by (intro round16_spec) simp_all
  with Cons show ?case by simp
qed

lemma feed_forward:
  assumes "length st = 8"
  shows "st[0 := st ! 0 XOR A, 1 := st ! 1 XOR B, 2 := st ! 2 XOR C, 3 := st ! 3 XOR D,
            4 := st ! 4 XOR E, 5 := st ! 5 XOR F, 6 := st ! 6 XOR G, 7 := st ! 7 XOR H]
         = map2 (XOR) st [A, B, C, D, E, F, G, H]"
proof -
  obtain a b c d e f g h where "st = [a, b, c, d, e, f, g, h]"
    using list8 [OF assms] by blast
  then show ?thesis by simp
qed

lemma compress_block_spec:
  assumes "length st = 8" "length blk = 64"
  shows "compress_block st blk 0 = spec_compress st blk"
proof -
  define W where "W = expand_W (load_W (replicate 68 0) blk 0)"
  define r0 where "r0 = (st ! 0, st ! 1, st ! 2, st ! 3, st ! 4, st ! 5, st ! 6, st ! 7)"
  have W: "\<forall>j<68. W ! j = spec_W blk j"
    using expand_W_spec [OF assms(2)] by (simp add: W_def)
  have s1: "\<forall>j \<in> set [0..<16]. j < 16"
    by auto
  have s2: "\<forall>j \<in> set [16..<64]. 16 \<le> j \<and> j < 64"
    by auto
  have split: "[0..<64] = [0..<16] @ [16..<64]"
    using upt_add_eq_append [of 0 16 48] by simp
  have "fold (round16 W) [16..<64] (fold (round00 W) [0..<16] r0)
        = fold (spec_round blk) [16..<64] (fold (spec_round blk) [0..<16] r0)"
    by (simp only: fold_round00_spec [OF W s1] fold_round16_spec [OF W s2])
  also have "\<dots> = fold (spec_round blk) [0..<64] r0"
    by (simp only: split fold_append comp_apply)
  finally have rounds: "fold (round16 W) [16..<64] (fold (round00 W) [0..<16] r0)
        = fold (spec_round blk) [0..<64] r0" .
  obtain A B C D E F G H where res: "fold (spec_round blk) [0..<64] r0 = (A, B, C, D, E, F, G, H)"
    by (metis surj_pair)
  have "compress_block st blk 0 =
        st[0 := st ! 0 XOR A, 1 := st ! 1 XOR B, 2 := st ! 2 XOR C, 3 := st ! 3 XOR D,
           4 := st ! 4 XOR E, 5 := st ! 5 XOR F, 6 := st ! 6 XOR G, 7 := st ! 7 XOR H]"
    unfolding compress_block_def Let_def W_def [symmetric] r0_def [symmetric] rounds res
    by (simp only: prod.case)
  also have "\<dots> = map2 (XOR) st [A, B, C, D, E, F, G, H]"
    by (rule feed_forward [OF assms(1)])
  also have "\<dots> = spec_compress st blk"
    unfolding spec_compress_def r0_def [symmetric] res by (simp only: prod.case)
  finally show ?thesis .
qed

text \<open>
  Claim C2. One application of the compression function to an 8-word chaining state and
  a 64-byte block is the function \<open>spec_compress\<close>: the schedule \<open>W[0..68)\<close> of 16
  big-endian words extended by
  \<open>W[j] = P1(W[j-16] xor W[j-9] xor rotl(W[j-3],15)) xor rotl(W[j-13],7) xor W[j-6]\<close>,
  64 rounds, the first 16 with exclusive or for both boolean functions and the other 48
  with majority and choose, additions modulo \<open>2 ^ 32\<close>, and at the end the registers
  combined into the chaining state by exclusive or, word by word.
\<close>

theorem compress_refines_spec:
  assumes "length st = 8" "length blk = 64"
  shows "sm3_compress st blk = spec_compress st blk
     \<and> sm3_compress_blocks st blk 0 1 = spec_compress st blk
     \<and> length (spec_compress st blk) = 8"
proof -
  have c: "compress_block st blk 0 = spec_compress st blk"
    by (rule compress_block_spec [OF assms])
  have "length (compress_block st blk 0) = 8"
    using assms(1) by (simp add: length_compress_block)
  with c show ?thesis
    by (simp add: sm3_compress_def)
qed

theorem compress_refines_spec_witness:
  "length sm3_iv = 8 \<and> length (replicate 64 (0 :: byte)) = 64
   \<and> sm3_compress sm3_iv (replicate 64 0) = spec_compress sm3_iv (replicate 64 0)
   \<and> sm3_compress_blocks sm3_iv (replicate 64 0) 0 1 = spec_compress sm3_iv (replicate 64 0)
   \<and> length (spec_compress sm3_iv (replicate 64 0)) = 8"
proof -
  have l: "length sm3_iv = 8"
    by (simp add: sm3_iv_def)
  have b: "length (replicate 64 (0 :: byte)) = 64"
    by simp
  from compress_refines_spec [OF l b] l b show ?thesis
    by blast
qed

lemma nrm_id: "nrm x = x"
  by (simp add: nrm_def take_bit_word_eq_self)

lemma ev_rol_rotl: "0 < n \<Longrightarrow> n < 32 \<Longrightarrow> ev_rol n x = word_rotl n x"
  using SM3_ROL32_rotl [of n x] by (simp add: ev_rol_def nrm_id SM3_ROL32_def)

lemma ev_round_spec:
  assumes "lo \<longleftrightarrow> j < 16"
  shows "ev_round lo (K ! j) (spec_W blk j) (spec_W blk (j + 4)) r = spec_round blk j r"
proof -
  obtain A B C D E F G H where r: "r = (A, B, C, D, E, F, G, H)"
    by (metis surj_pair)
  have gg: "((F XOR G) AND E) XOR G = (E AND F) OR (NOT E AND G)"
    using SM3_GG16_choose [of E F G] by (simp add: SM3_GG16_def)
  show ?thesis
    using assms unfolding r
    by (simp add: Let_def nrm_id ev_rol_rotl spec_FF_def spec_GG_def spec_P0_def gg)
qed

lemma ev_next_spec:
  assumes "ws = map (spec_W blk) [j..<j + 16]"
  shows "ev_next ws = spec_W blk (j + 16)"
proof -
  have n: "ws ! i = spec_W blk (j + i)" if "i < 16" for i
    using that assms by simp
  show ?thesis
    by (subst spec_W.simps)
       (simp add: ev_next_def Let_def n ev_rol_rotl spec_P1_def add.commute xor.assoc)
qed

lemma window_shift:
  "tl (map f [j..<j + 16]) @ [f (j + 16)] = map f [Suc j..<Suc j + 16]"
proof -
  have "[j..<j + 16] = j # [Suc j..<j + 16]"
    by (simp add: upt_conv_Cons)
  moreover have "[Suc j..<Suc (j + 16)] = [Suc j..<j + 16] @ [j + 16]"
    by (rule upt_Suc_append) simp
  then have "[Suc j..<Suc j + 16] = [Suc j..<j + 16] @ [j + 16]"
    by (simp only: add_Suc)
  ultimately show ?thesis by simp
qed

lemma ev_rounds_spec:
  assumes "\<forall>i<length ks. ks ! i = K ! (j + i)"
    and "lo \<longrightarrow> j + length ks \<le> 16" and "\<not> lo \<longrightarrow> 16 \<le> j"
  shows "ev_rounds lo ks (map (spec_W blk) [j..<j + 16], r) =
           (map (spec_W blk) [j + length ks..<j + length ks + 16],
            fold (spec_round blk) [j..<j + length ks] r)"
  using assms
proof (induction ks arbitrary: j r)
  case Nil
  then show ?case by simp
next
  case (Cons k ks)
  have k: "k = K ! j"
    using Cons.prems(1) by auto
  have lo: "lo \<longleftrightarrow> j < 16"
    using Cons.prems(2,3) by auto
  have w0: "map (spec_W blk) [j..<j + 16] ! 0 = spec_W blk j"
    and w4: "map (spec_W blk) [j..<j + 16] ! 4 = spec_W blk (j + 4)"
    by simp_all
  have rest: "\<forall>i<length ks. ks ! i = K ! (Suc j + i)"
    using Cons.prems(1) by auto
  have IH: "ev_rounds lo ks (map (spec_W blk) [Suc j..<Suc j + 16], spec_round blk j r) =
           (map (spec_W blk) [Suc j + length ks..<Suc j + length ks + 16],
            fold (spec_round blk) [Suc j..<Suc j + length ks] (spec_round blk j r))"
    using Cons.prems(2,3) by (intro Cons.IH rest) auto
  have "ev_rounds lo (k # ks) (map (spec_W blk) [j..<j + 16], r) =
        ev_rounds lo ks (map (spec_W blk) [Suc j..<Suc j + 16], spec_round blk j r)"
    unfolding ev_rounds.simps w0 w4 k ev_round_spec [OF lo]
      ev_next_spec [OF refl] window_shift ..
  also note IH
  also have "fold (spec_round blk) [Suc j..<Suc j + length ks] (spec_round blk j r)
           = fold (spec_round blk) [j..<j + length (k # ks)] r"
  proof -
    have "j < j + length (k # ks)"
      by simp
    then have "[j..<j + length (k # ks)] = j # [Suc j..<j + length (k # ks)]"
      by (rule upt_conv_Cons)
    moreover have "j + length (k # ks) = Suc j + length ks"
      by simp
    ultimately have "[j..<j + length (k # ks)] = j # [Suc j..<Suc j + length ks]"
      by (simp only:)
    then show ?thesis
      by (simp only: fold_simps)
  qed
  also have "Suc j + length ks = j + length (k # ks)"
    by simp
  finally show ?case .
qed

lemma block_words_nth:
  "length blk = 4 * n \<Longrightarrow>
   length (block_words blk) = n
   \<and> (\<forall>j<n. block_words blk ! j = be_word (take 4 (drop (4 * j) blk)))"
proof (induction n arbitrary: blk)
  case 0
  then show ?case by simp
next
  case (Suc n)
  then obtain a b c d bs where blk: "blk = a # b # c # d # bs" and bs: "length bs = 4 * n"
    by (cases blk rule: block_words.cases) auto
  from Suc.IH [OF bs] have IH: "length (block_words bs) = n"
    "\<And>j. j < n \<Longrightarrow> block_words bs ! j = be_word (take 4 (drop (4 * j) bs))"
    by simp_all
  show ?case
  proof (intro conjI allI impI)
    show "length (block_words blk) = Suc n"
      by (simp add: blk IH(1))
  next
    fix j
    assume j: "j < Suc n"
    show "block_words blk ! j = be_word (take 4 (drop (4 * j) blk))"
    proof (cases j)
      case 0
      then show ?thesis by (simp add: blk)
    next
      case (Suc i)
      then have "i < n" using j by simp
      moreover have "drop (4 * Suc i) blk = drop (4 * i) bs"
      proof -
        have "4 * Suc i = 4 * i + 4"
          by simp
        then have "drop (4 * Suc i) blk = drop (4 * i) (drop 4 blk)"
          by (simp only: drop_drop)
        also have "drop 4 blk = bs"
          by (simp add: blk)
        finally show ?thesis .
      qed
      ultimately show ?thesis
        using IH(2) [of i] Suc by (simp add: blk del: mult_Suc_right)
    qed
  qed
qed

lemma length_K: "length K = 64"
  by (simp add: K_def)

lemma spec_words_block:
  assumes "length blk = 64"
  shows "map (spec_W blk) [0..<0 + 16] = block_words blk"
proof (rule nth_equalityI)
  have "length blk = 4 * 16"
    using assms by simp
  from block_words_nth [OF this]
  have bw: "length (block_words blk) = 16"
    "\<And>j. j < 16 \<Longrightarrow> block_words blk ! j = be_word (take 4 (drop (4 * j) blk))"
    by simp_all
  show "length (map (spec_W blk) [0..<0 + 16]) = length (block_words blk)"
    by (simp add: bw(1))
  fix i
  assume "i < length (map (spec_W blk) [0..<0 + 16])"
  then have i: "i < 16" by simp
  then have "map (spec_W blk) [0..<0 + 16] ! i = spec_W blk i"
    by simp
  also have "\<dots> = be_word (take 4 (drop (4 * i) blk))"
    using i by (subst spec_W.simps) simp
  finally show "map (spec_W blk) [0..<0 + 16] ! i = block_words blk ! i"
    using bw(2) [OF i] by simp
qed

lemma sm3_compress_ev:
  assumes "length st = 8" "length blk = 64"
  shows "sm3_compress st blk = ev_compress st (block_words blk)"
proof -
  define r0 where "r0 = (st ! 0, st ! 1, st ! 2, st ! 3, st ! 4, st ! 5, st ! 6, st ! 7)"
  have k1: "\<forall>i<length (take 16 K). take 16 K ! i = K ! (0 + i)"
    by simp
  have k2: "\<forall>i<length (drop 16 K). drop 16 K ! i = K ! (16 + i)"
    by (simp add: length_K)
  have l1: "length (take 16 K) = 16" and l2: "length (drop 16 K) = 48"
    by (simp_all add: length_K)
  have e1: "ev_rounds True (take 16 K) (map (spec_W blk) [0..<0 + 16], r0) =
        (map (spec_W blk) [0 + 16..<0 + 16 + 16], fold (spec_round blk) [0..<0 + 16] r0)"
    using ev_rounds_spec [OF k1, of True blk r0] by (simp only: l1) simp
  have e2: "ev_rounds False (drop 16 K) (map (spec_W blk) [16..<16 + 16], r) =
        (map (spec_W blk) [16 + 48..<16 + 48 + 16], fold (spec_round blk) [16..<16 + 48] r)" for r
    using ev_rounds_spec [OF k2, of False blk r] by (simp only: l2) simp
  have split: "fold (spec_round blk) [16..<16 + 48] (fold (spec_round blk) [0..<0 + 16] r0)
      = fold (spec_round blk) [0..<64] r0"
  proof -
    have "[0..<64] = [0..<16] @ [16..<64]"
      using upt_add_eq_append [of 0 16 48] by simp
    then show ?thesis by simp
  qed
  have "ev_rounds False (drop 16 K) (ev_rounds True (take 16 K) (block_words blk, r0))
        = (map (spec_W blk) [16 + 48..<16 + 48 + 16], fold (spec_round blk) [0..<64] r0)"
    unfolding spec_words_block [OF assms(2), symmetric] e1
    using e2 [of "fold (spec_round blk) [0..<0 + 16] r0"] split by simp
  then have "ev_compress st (block_words blk) = spec_compress st blk"
    unfolding ev_compress_def spec_compress_def r0_def [symmetric] by simp
  moreover have "sm3_compress st blk = spec_compress st blk"
    using compress_block_spec [OF assms] by (simp add: sm3_compress_def)
  ultimately show ?thesis by simp
qed

lemma SM3_GETU32_window:
  assumes "off + 64 \<le> length data" "j < 16"
  shows "SM3_GETU32 data (off + j * 4) = SM3_GETU32 (take 64 (drop off data)) (0 + j * 4)"
  using assms by (simp add: SM3_GETU32_def js_get_def add.commute add.left_commute)

lemma load_W_window:
  assumes "off + 64 \<le> length data"
  shows "load_W W data off = load_W W (take 64 (drop off data)) 0"
proof -
  have "fold (\<lambda>j W. W[j := SM3_GETU32 data (off + j * 4)]) js W
      = fold (\<lambda>j W. W[j := SM3_GETU32 (take 64 (drop off data)) (0 + j * 4)]) js W"
    if "\<forall>j \<in> set js. j < 16" for js
    using that
  proof (induction js arbitrary: W)
    case Nil
    then show ?case by simp
  next
    case (Cons j js)
    then show ?case
      using SM3_GETU32_window [OF assms, of j] by simp
  qed
  moreover have "\<forall>j \<in> set [0..<16]. j < 16"
    by auto
  ultimately show ?thesis
    unfolding load_W_def by blast
qed

lemma compress_block_window:
  assumes "off + 64 \<le> length data"
  shows "compress_block st data off = sm3_compress st (take 64 (drop off data))"
  unfolding sm3_compress_def sm3_compress_blocks.simps One_nat_def compress_block_def
    load_W_window [OF assms] ..

lemma sm3_compress_blocks_window:
  assumes "off + 64 \<le> length data"
  shows "sm3_compress_blocks st data off n = ((\<lambda>s. sm3_compress s (take 64 (drop off data))) ^^ n) st"
proof (induction n arbitrary: st)
  case 0
  then show ?case by simp
next
  case (Suc n)
  show ?case
    by (simp only: sm3_compress_blocks.simps Suc.IH compress_block_window [OF assms]
          funpow_Suc_right comp_apply)
qed

lemma sm3_compress_block_self:
  assumes "length b = 64"
  shows "sm3_compress_blocks st b 0 1 = sm3_compress st b"
  by (simp add: sm3_compress_def)

lemma sm3_update_rest_closed:
  assumes "length (block c) = 64" "off + dl = length data"
  shows "sm3_update_rest c data off dl =
     Some (c\<lparr> state := ((\<lambda>s. sm3_compress s (take 64 (drop off data))) ^^ (dl div 64)) (state c),
               nblocks := nblocks c + dl div 64,
               num := dl mod 64,
               block := drop (off + 64 * (dl div 64)) data @ drop (dl mod 64) (block c) \<rparr>)"
proof -
  obtain st blk nb n where c: "c = \<lparr> state = st, block = blk, nblocks = nb, num = n \<rparr>"
    by (cases c)
  have blk: "length blk = 64"
    using assms(1) by (simp add: c)
  define q where "q = dl div 64"
  define r where "r = dl mod 64"
  have dl: "dl = 64 * q + r" and r: "r < 64"
    by (simp_all add: q_def r_def)
  have m: "dl - 64 * q = r"
    using dl by simp
  have len_tail: "length (drop (off + 64 * q) data) = r"
    using assms(2) dl by simp
  have cp: "sm3_memcpy blk 0 data (off + 64 * q) (int r) =
            Some (drop (off + 64 * q) data @ drop r blk)"
  proof -
    have "sm3_memcpy blk 0 data (off + 64 * q) (int r) =
          Some (take 0 blk @ take r (drop (off + 64 * q) data) @ drop (0 + r) blk)"
      using blk r assms(2) dl by (intro sm3_memcpy_in_range) simp_all
    then show ?thesis
      using len_tail by simp
  qed
  show ?thesis
  proof (cases "q = 0")
    case True
    then have "dl < 64" "r = dl"
      using dl r by simp_all
    then show ?thesis
      using cp True len_tail
      by (cases "dl = 0")
         (simp_all add: sm3_update_rest_def SM3_BLOCK_SIZE_def Let_def c q_def [symmetric] r_def [symmetric])
  next
    case False
    then have "off + 64 \<le> length data"
      using assms(2) dl by simp
    then have w: "sm3_compress_blocks st data off q = ((\<lambda>s. sm3_compress s (take 64 (drop off data))) ^^ q) st"
      by (rule sm3_compress_blocks_window)
    show ?thesis
      using cp False len_tail m w
      by (cases "r = 0")
         (simp_all add: sm3_update_rest_def SM3_BLOCK_SIZE_def Let_def c q_def [symmetric] r_def [symmetric])
  qed
qed

lemma tail_len: "(m::nat) - (64 * ((m - l) div 64) + l) = (m - l) mod 64"
proof -
  have "m - (64 * ((m - l) div 64) + l) = (m - l) - 64 * ((m - l) div 64)"
    by simp
  then show ?thesis
    by (simp add: minus_mult_div_eq_mod)
qed

lemma sm3_update_closed:
  assumes "ctx_ok ctx"
  shows "sm3_update ctx data = Some (update_result ctx data)"
proof -
  obtain st blk nb n where c: "ctx = \<lparr> state = st, block = blk, nblocks = nb, num = n \<rparr>"
    by (cases ctx)
  from assms have blk: "length blk = 64" and n: "n < 64"
    by (simp_all add: ctx_ok_def c)
  define len where "len = length data"
  show ?thesis
  proof (cases "n = 0")
    case True
    have "sm3_update ctx data = sm3_update_rest ctx data 0 len"
      using True by (simp add: sm3_update_def c len_def)
    also have "\<dots> = Some (ctx\<lparr> state := ((\<lambda>s. sm3_compress s (take 64 (drop 0 data))) ^^ (len div 64)) (state ctx),
               nblocks := nblocks ctx + len div 64,
               num := len mod 64,
               block := drop (0 + 64 * (len div 64)) data @ drop (len mod 64) (block ctx) \<rparr>)"
      using blk by (intro sm3_update_rest_closed) (simp_all add: c len_def)
    also have "\<dots> = Some (update_result ctx data)"
      using True by (simp add: update_result_def Let_def c len_def [symmetric])
    finally show ?thesis .
  next
    case False
    show ?thesis
    proof (cases "n + len < 64")
      case True
      have "sm3_memcpy blk n data 0 (int len) =
            Some (take n blk @ take len (drop 0 data) @ drop (n + len) blk)"
        using blk True by (intro sm3_memcpy_in_range) (simp_all add: len_def)
      then show ?thesis
        using False True
        by (simp add: sm3_update_def SM3_BLOCK_SIZE_def Let_def c len_def [symmetric]
              update_result_def)
    next
      case ge: False
      define left where "left = 64 - n"
      have left: "left \<le> len" "n + left = 64" "0 < left"
        using ge n by (simp_all add: left_def)
      define b1 where "b1 = take n blk @ take left data"
      have lb1: "length b1 = 64"
        using blk n left by (simp add: b1_def len_def)
      have cp: "sm3_memcpy blk n data 0 (int left) = Some b1"
      proof -
        have "sm3_memcpy blk n data 0 (int left) =
              Some (take n blk @ take left (drop 0 data) @ drop (n + left) blk)"
          using blk left by (intro sm3_memcpy_in_range) (simp_all add: len_def)
        then show ?thesis
          using blk left by (simp add: b1_def)
      qed
      define c1 where "c1 = ctx\<lparr> block := b1, state := sm3_compress_blocks st b1 0 1, nblocks := nb + 1 \<rparr>"
      have il: "int SM3_BLOCK_SIZE - int (num ctx) = int left"
        using n by (simp add: left_def SM3_BLOCK_SIZE_def c)
      have nl: "\<not> int len < int left"
        using left by simp
      have "sm3_update ctx data = sm3_update_rest c1 data left (len - left)"
        using False nl cp unfolding sm3_update_def Let_def len_def [symmetric] il
        by (simp add: c1_def c)
      also have "\<dots> = Some (c1\<lparr> state := ((\<lambda>s. sm3_compress s (take 64 (drop left data))) ^^ ((len - left) div 64)) (state c1),
               nblocks := nblocks c1 + (len - left) div 64,
               num := (len - left) mod 64,
               block := drop (left + 64 * ((len - left) div 64)) data @ drop ((len - left) mod 64) (block c1) \<rparr>)"
        using lb1 left by (intro sm3_update_rest_closed) (simp_all add: c1_def len_def)
      also have "\<dots> = Some (update_result ctx data)"
        using False ge
        by (simp add: update_result_def Let_def c c1_def len_def [symmetric] left_def [symmetric]
              b1_def sm3_compress_def)
      finally show ?thesis .
    qed
  qed
qed

lemma length_funpow_compress:
  "length (((\<lambda>s. sm3_compress s b) ^^ k) st) = length st"
  by (induction k) (simp_all add: length_sm3_compress)

lemma ctx_ok_update_result:
  assumes "ctx_ok ctx"
  shows "ctx_ok (update_result ctx data)"
proof -
  from assms have a: "length (state ctx) = 8" "length (block ctx) = 64" "num ctx < 64"
    by (simp_all add: ctx_ok_def)
  have m: "(k::nat) mod 64 \<le> 64" for k
    by (simp add: less_imp_le)
  show ?thesis
    using a tail_len [of "length data" 0] m
    by (auto simp: update_result_def Let_def ctx_ok_def length_funpow_compress length_sm3_compress
          tail_len minus_mult_div_eq_mod)
qed

lemma sm3_final_digest:
  assumes "ctx_ok ctx" "length d \<le> 32"
  shows "sm3_final ctx d =
     Some (ctx\<lparr> block := last (final_blocks ctx),
                 state := foldl sm3_compress (state ctx) (final_blocks ctx) \<rparr>,
           digest_of ctx)"
  using sm3_final_closed [OF assms(1), of d] assms(2) by (simp add: digest_of_def)


lemma sm3_updates_closed:
  assumes "ctx_ok ctx"
  shows "sm3_updates ctx ms = Some (foldl update_result ctx ms)"
  using assms
proof (induction ms arbitrary: ctx)
  case Nil
  then show ?case by simp
next
  case (Cons m ms)
  then show ?case
    by (simp add: sm3_update_closed ctx_ok_update_result)
qed

lemma ctx_ok_updates:
  assumes "ctx_ok ctx"
  shows "ctx_ok (foldl update_result ctx ms)"
  using assms by (induction ms arbitrary: ctx) (simp_all add: ctx_ok_update_result)

lemma sm3_closed: "sm3 m = Some (digest_of (update_result sm3_ctx_new m))"
  by (simp add: sm3_def SM3_DIGEST_LENGTH_def sm3_init_new sm3_update_closed ctx_ok_new
        sm3_final_digest ctx_ok_update_result)

lemma sm3_stream_closed: "sm3_stream ms = Some (digest_of (foldl update_result sm3_ctx_new ms))"
  by (simp add: sm3_stream_def SM3_DIGEST_LENGTH_def sm3_init_new sm3_updates_closed ctx_ok_new
        sm3_final_digest ctx_ok_updates)

section \<open>The keyed MAC and the key derivation in closed form\<close>




lemma sm3_memset_zero: "sm3_memset dst off v 0 = Some dst"
  by (subst sm3_memset.simps) simp






















section \<open>Requested lengths of the key derivation\<close>





section \<open>Concrete compressions\<close>


lemma K_lo: "take 16 K = [0x79cc4519, 0xf3988a32, 0xe7311465, 0xce6228cb,
    0x9cc45197, 0x3988a32f, 0x7311465e, 0xe6228cbc,
    0xcc451979, 0x988a32f3, 0x311465e7, 0x6228cbce,
    0xc451979c, 0x88a32f39, 0x11465e73, 0x228cbce6]"
  by (simp add: K_def)

lemma K_hi: "drop 16 K = [
    0x9d8a7a87, 0x3b14f50f, 0x7629ea1e, 0xec53d43c,
    0xd8a7a879, 0xb14f50f3, 0x629ea1e7, 0xc53d43ce,
    0x8a7a879d, 0x14f50f3b, 0x29ea1e76, 0x53d43cec,
    0xa7a879d8, 0x4f50f3b1, 0x9ea1e762, 0x3d43cec5,
    0x7a879d8a, 0xf50f3b14, 0xea1e7629, 0xd43cec53,
    0xa879d8a7, 0x50f3b14f, 0xa1e7629e, 0x43cec53d,
    0x879d8a7a, 0x0f3b14f5, 0x1e7629ea, 0x3cec53d4,
    0x79d8a7a8, 0xf3b14f50, 0xe7629ea1, 0xcec53d43,
    0x9d8a7a87, 0x3b14f50f, 0x7629ea1e, 0xec53d43c,
    0xd8a7a879, 0xb14f50f3, 0x629ea1e7, 0xc53d43ce,
    0x8a7a879d, 0x14f50f3b, 0x29ea1e76, 0x53d43cec,
    0xa7a879d8, 0x4f50f3b1, 0x9ea1e762, 0x3d43cec5]"
  by (simp add: K_def)

lemma replicate_num: "replicate (numeral n) x = x # replicate (pred_numeral n) x"
  by (simp add: numeral_eq_Suc)

lemma nrm_mask: "nrm x = x AND 0xFFFFFFFF"
proof -
  have "(0xFFFFFFFF :: u32) = mask 32"
    by (simp add: mask_eq_exp_minus_1)
  then show ?thesis
    by (simp add: nrm_def take_bit_eq_mask)
qed

lemma ev_rol_mult: "ev_rol n x = (x * 2 ^ n AND 0xFFFFFFFF) OR drop_bit (32 - n) x"
  by (simp add: ev_rol_def nrm_mask push_bit_eq_mult)

lemmas ev_simps = ev_compress_def K_lo K_hi replicate_num be_word_def ev_next_def ev_rol_mult nrm_mask

lemma compress_iv_zero:
  "sm3_compress [0x7380166F, 0x4914B2B9, 0x172442D7, 0xDA8A0600, 0xA96F30BC, 0x163138AA, 0xE38DEE4D, 0xB0FB0E4E]
     (replicate 64 0) =
   [0xA1203A40, 0x4A5566CD, 0x536FCEE8, 0x20DF7E13, 0x35C58F56, 0xB7C4C62E, 0x813C32CC, 0x47BF9B6C]"
  by (simp add: sm3_compress_ev ev_simps)

lemma compress_s1_zero:
  "sm3_compress [0xA1203A40, 0x4A5566CD, 0x536FCEE8, 0x20DF7E13, 0x35C58F56, 0xB7C4C62E, 0x813C32CC, 0x47BF9B6C]
     (replicate 64 0) =
   [0x426553F5, 0xA35D7519, 0x0F64FD0C, 0x000C893A, 0x1AEF9155, 0xA075E75F, 0xB86A61D3, 0x6029EB78]"
  by (simp add: sm3_compress_ev ev_simps)

lemma compress_s1_counter:
  "sm3_compress [0xA1203A40, 0x4A5566CD, 0x536FCEE8, 0x20DF7E13, 0x35C58F56, 0xB7C4C62E, 0x813C32CC, 0x47BF9B6C]
     (replicate 60 0 @ [0, 0, 0, 1]) =
   [0x20BFCD22, 0x47D9F15E, 0xFAFFEB88, 0xB90CF370, 0xE6C55294, 0xDD60513A, 0xC96B5450, 0xB50AA89C]"
  by (simp add: sm3_compress_ev ev_simps)

lemma compress_s2_pad:
  "sm3_compress [0x426553F5, 0xA35D7519, 0x0F64FD0C, 0x000C893A, 0x1AEF9155, 0xA075E75F, 0xB86A61D3, 0x6029EB78]
     (0x80 # replicate 61 0 @ [0x04, 0x00]) =
   [0x0E7FB6BC, 0x42365AE2, 0xF5C91933, 0x17A938DA, 0x84419950, 0xCA246BE9, 0x03511B75, 0xEB3F6726]"
  by (simp add: sm3_compress_ev ev_simps)

lemma compress_t2_pad:
  "sm3_compress [0x20BFCD22, 0x47D9F15E, 0xFAFFEB88, 0xB90CF370, 0xE6C55294, 0xDD60513A, 0xC96B5450, 0xB50AA89C]
     (0x80 # replicate 61 0 @ [0x04, 0x00]) =
   [0x8AE205F1, 0x080F7FC3, 0xA944953F, 0x5C6C4AD3, 0xC360BABF, 0x4C59732D, 0x67450EF8, 0xB37304C3]"
  by (simp add: sm3_compress_ev ev_simps)





section \<open>The context after finalisation\<close>






section \<open>The length field\<close>

lemma length_field_exact:
  assumes "nb < 2 ^ 32" "n < 64"
  shows "length_field nb n = spec_length_field (nb * 512 + n * 8)"
proof -
  have hi: "(nb * 512 + n * 8) div 2 ^ 32 = nb div 2 ^ 23"
    using assms(2) by simp
  have u: "unat (word_of_nat nb :: u32) = nb"
    using assms(1) by (simp add: unsigned_of_nat take_bit_nat_eq_self)
  have "unat (drop_bit 23 (word_of_nat nb :: u32)) = nb div 2 ^ 23"
    by (simp add: drop_bit_eq_div unat_div u)
  moreover have "unat (word_of_nat (nb div 2 ^ 23) :: u32) = nb div 2 ^ 23"
    using le_less_trans [OF div_le_dividend assms(1), of "2 ^ 23"]
    by (simp add: unsigned_of_nat take_bit_nat_eq_self)
  ultimately have h: "drop_bit 23 (word_of_nat nb :: u32) = word_of_nat (nb div 2 ^ 23)"
    by (metis word_unat_eq_iff)
  have "(word_of_nat (x mod 2 ^ 32) :: u32) = word_of_nat x" for x
    by (simp add: word_of_nat_eq_iff take_bit_eq_mod)
  then have a: "(word_of_nat ((nb * 512 + n * 8) mod 2 ^ 32) :: u32) = word_of_nat (nb * 512 + n * 8)" .
  have b: "(word_of_nat (nb * 512 + n * 8) :: u32) = push_bit 9 (word_of_nat nb) + push_bit 3 (word_of_nat n)"
    by (simp add: push_bit_eq_mult)
  have l: "push_bit 9 (word_of_nat nb :: u32) + push_bit 3 (word_of_nat n)
      = word_of_nat ((nb * 512 + n * 8) mod 2 ^ 32)"
    unfolding a b ..
  show ?thesis
    unfolding length_field_def spec_length_field_def hi h l ..
qed










section \<open>One-shot and chunked digests\<close>


lemma funpow_two: "(f ^^ 2) x = f (f x)"
  by (simp add: numeral_2_eq_2)

lemma ctx_zero_block:
  "update_result sm3_ctx_new (replicate 64 0) =
     \<lparr> state = [0xA1203A40, 0x4A5566CD, 0x536FCEE8, 0x20DF7E13, 0x35C58F56, 0xB7C4C62E, 0x813C32CC, 0x47BF9B6C],
       block = replicate 64 0, nblocks = Suc 0, num = 0 \<rparr>"
  using compress_iv_zero
  by (simp add: update_result_def sm3_ctx_new_closed sm3_iv_def)

lemma ctx_two_blocks_at_once:
  "update_result sm3_ctx_new (replicate 64 0 @ replicate 60 0 @ [0, 0, 0, 1]) =
     \<lparr> state = [0x426553F5, 0xA35D7519, 0x0F64FD0C, 0x000C893A, 0x1AEF9155, 0xA075E75F, 0xB86A61D3, 0x6029EB78],
       block = replicate 64 0, nblocks = 2, num = 0 \<rparr>"
  using compress_iv_zero compress_s1_zero
  by (simp add: update_result_def sm3_ctx_new_closed sm3_iv_def funpow_two)


lemma ctx_second_block:
  "update_result
     \<lparr> state = [0xA1203A40, 0x4A5566CD, 0x536FCEE8, 0x20DF7E13, 0x35C58F56, 0xB7C4C62E, 0x813C32CC, 0x47BF9B6C],
       block = replicate 64 0, nblocks = Suc 0, num = 0 \<rparr>
     (replicate 60 0 @ [0, 0, 0, 1]) =
     \<lparr> state = [0x20BFCD22, 0x47D9F15E, 0xFAFFEB88, 0xB90CF370, 0xE6C55294, 0xDD60513A, 0xC96B5450, 0xB50AA89C],
       block = replicate 64 0, nblocks = 2, num = 0 \<rparr>"
  using compress_s1_counter
  by (simp add: update_result_def)

lemma final_blocks_two: "final_blocks \<lparr> state = s, block = b, nblocks = 2, num = 0 \<rparr> = [0x80 # replicate 61 0 @ [0x04, 0x00]]"
  by (simp add: final_blocks_def length_field_def be32_def replicate_num)

lemma digest_two_blocks_at_once:
  "digest_of \<lparr> state = [0x426553F5, 0xA35D7519, 0x0F64FD0C, 0x000C893A, 0x1AEF9155, 0xA075E75F, 0xB86A61D3, 0x6029EB78],
       block = b, nblocks = 2, num = 0 \<rparr> =
   [0x0E, 0x7F, 0xB6, 0xBC, 0x42, 0x36, 0x5A, 0xE2, 0xF5, 0xC9, 0x19, 0x33, 0x17, 0xA9, 0x38, 0xDA,
    0x84, 0x41, 0x99, 0x50, 0xCA, 0x24, 0x6B, 0xE9, 0x03, 0x51, 0x1B, 0x75, 0xEB, 0x3F, 0x67, 0x26]"
  by (simp add: digest_of_def final_blocks_two compress_s2_pad be32_def)

lemma digest_two_blocks_in_turn:
  "digest_of \<lparr> state = [0x20BFCD22, 0x47D9F15E, 0xFAFFEB88, 0xB90CF370, 0xE6C55294, 0xDD60513A, 0xC96B5450, 0xB50AA89C],
       block = b, nblocks = 2, num = 0 \<rparr> =
   [0x8A, 0xE2, 0x05, 0xF1, 0x08, 0x0F, 0x7F, 0xC3, 0xA9, 0x44, 0x95, 0x3F, 0x5C, 0x6C, 0x4A, 0xD3,
    0xC3, 0x60, 0xBA, 0xBF, 0x4C, 0x59, 0x73, 0x2D, 0x67, 0x45, 0x0E, 0xF8, 0xB3, 0x73, 0x04, 0xC3]"
  by (simp add: digest_of_def final_blocks_two compress_t2_pad be32_def)

text \<open>
  Claim C1 at its failing input: 128 bytes, all zero but the last, which is 1. Fed as two
  chunks of 64 bytes the second block is compressed; fed at once, the loop of
  \<open>sm3_compress_blocks\<close> runs twice without advancing its offset and compresses the
  first block twice. The two digests differ in their first byte already.
\<close>

theorem one_shot_differs_from_chunked:
  "sm3 (replicate 64 0 @ replicate 60 0 @ [0, 0, 0, 1]) =
     Some [0x0E, 0x7F, 0xB6, 0xBC, 0x42, 0x36, 0x5A, 0xE2, 0xF5, 0xC9, 0x19, 0x33, 0x17, 0xA9, 0x38, 0xDA,
           0x84, 0x41, 0x99, 0x50, 0xCA, 0x24, 0x6B, 0xE9, 0x03, 0x51, 0x1B, 0x75, 0xEB, 0x3F, 0x67, 0x26]
   \<and> sm3_stream [replicate 64 0, replicate 60 0 @ [0, 0, 0, 1]] =
     Some [0x8A, 0xE2, 0x05, 0xF1, 0x08, 0x0F, 0x7F, 0xC3, 0xA9, 0x44, 0x95, 0x3F, 0x5C, 0x6C, 0x4A, 0xD3,
           0xC3, 0x60, 0xBA, 0xBF, 0x4C, 0x59, 0x73, 0x2D, 0x67, 0x45, 0x0E, 0xF8, 0xB3, 0x73, 0x04, 0xC3]"
  by (simp add: sm3_closed sm3_stream_closed ctx_two_blocks_at_once ctx_zero_block ctx_second_block
        digest_two_blocks_at_once digest_two_blocks_in_turn)














section \<open>What a call writes\<close>































end
